theory Spec2Isabelle
  imports Main "HOL-Library.Word"
begin

section \<open>Shared vocabulary\<close>

text \<open>
  A shallow embedding of the gateway in \<^verbatim>\<open>main.go\<close>. Bytes are 8-bit words, Go's
  \<^verbatim>\<open>time.Duration\<close> is a signed 64-bit count of nanoseconds, Go's \<^verbatim>\<open>error\<close> values
  are a datatype that keeps what the code asks of them: whether the value implements
  \<^verbatim>\<open>net.Error\<close>, and what its \<^verbatim>\<open>Timeout()\<close> and \<^verbatim>\<open>Temporary()\<close> methods answer.
\<close>

type_synonym byte = "8 word"
type_synonym duration = "64 word"

datatype error =
    EOF
  | ErrUnexpectedEOF
  | ErrNoProgress
  | ErrBufferFull
  | ErrInvalidUnreadByte
  | NetError bool bool
  | OtherError string

text \<open>\<^verbatim>\<open>ne, ok := err.(net.Error); ok && ne.Timeout()\<close>\<close>

fun is_timeout :: "error \<Rightarrow> bool" where
  "is_timeout (NetError tmo tmp) = tmo"
| "is_timeout _ = False"

text \<open>\<^verbatim>\<open>ne, ok := err.(net.Error); ok && ne.Temporary()\<close>\<close>

fun is_temporary :: "error \<Rightarrow> bool" where
  "is_temporary (NetError tmo tmp) = tmp"
| "is_temporary _ = False"

definition Millisecond :: duration where
  "Millisecond = 1000000"

definition Second :: duration where
  "Second = 1000000000"

section \<open>Accept loop\<close>

text \<open>
  The listener is the script of what its successive \<^verbatim>\<open>Accept()\<close> calls return:
  \<open>Inl err\<close> or \<open>Inr conn\<close>. One pass through the body of the \<^verbatim>\<open>for\<close> loop of
  \<^verbatim>\<open>accept\<close> on a temporary error updates the local \<^verbatim>\<open>tempDelay\<close> as follows
  (\<^verbatim>\<open>tempDelay > max\<close> is a signed comparison, \<^verbatim>\<open>*=\<close> wraps).
\<close>

definition next_tempDelay :: "duration \<Rightarrow> duration" where
  "next_tempDelay tempDelay =
     (let d = (if tempDelay = 0 then 5 * Millisecond else tempDelay * 2)
      in if 1 * Second <s d then 1 * Second else d)"

text \<open>
  \<open>accept_from tempDelay listener\<close> runs the loop of \<^verbatim>\<open>accept\<close> from the given value of
  the local. It returns the arguments of the \<^verbatim>\<open>time.Sleep\<close> calls in order, the final
  value of \<^verbatim>\<open>tempDelay\<close>, what the function returned (\<open>None\<close> when the script ends
  while the loop is still retrying) and the rest of the script.
\<close>

fun accept_from ::
  "duration \<Rightarrow> (error + 'c) list \<Rightarrow> duration list \<times> duration \<times> (error + 'c) option \<times> (error + 'c) list"
where
  "accept_from tempDelay [] = ([], tempDelay, None, [])"
| "accept_from tempDelay (Inr conn # listener) = ([], 0, Some (Inr conn), listener)"
| "accept_from tempDelay (Inl err # listener) =
     (if is_temporary err then
        (let tempDelay = next_tempDelay tempDelay in
         case accept_from tempDelay listener of
           (slept, d, res, rest) \<Rightarrow> (tempDelay # slept, d, res, rest))
      else ([], tempDelay, Some (Inl err), listener))"

text \<open>\<^verbatim>\<open>var tempDelay time.Duration\<close>: every call starts from zero.\<close>

definition accept ::
  "(error + 'c) list \<Rightarrow> duration list \<times> duration \<times> (error + 'c) option \<times> (error + 'c) list"
where
  "accept listener = accept_from 0 listener"

lemma accept_from_pending_le:
  "accept_from d listener = (slept, d', res, rest) \<Longrightarrow> length rest \<le> length listener"
proof (induction d listener arbitrary: slept d' res rest rule: accept_from.induct)
  case (3 tempDelay err listener)
  then show ?case
    by (auto simp: Let_def split: if_splits prod.splits) fastforce
qed auto

lemma accept_from_pending_less:
  "accept_from d listener = (slept, d', Some r, rest) \<Longrightarrow> length rest < length listener"
proof (induction d listener arbitrary: slept d' rest rule: accept_from.induct)
  case (3 tempDelay err listener)
  then show ?case
    by (auto simp: Let_def split: if_splits prod.splits) fastforce
qed auto

text \<open>
  \<^verbatim>\<open>loop\<close>: accept, hand the connection to a new handler task, repeat; stop at the first
  error \<^verbatim>\<open>accept\<close> returns. The result lists the sleeps of each \<^verbatim>\<open>accept\<close> call, the
  connections handed to \<^verbatim>\<open>go handle(conn)\<close>, and the error that ended the loop, if the
  script got that far.
\<close>

function loop :: "(error + 'c) list \<Rightarrow> duration list list \<times> 'c list \<times> error option" where
  "loop listener =
     (case accept listener of
        (slept, d, None, rest) \<Rightarrow> ([slept], [], None)
      | (slept, d, Some (Inl err), rest) \<Rightarrow> ([slept], [], Some err)
      | (slept, d, Some (Inr conn), rest) \<Rightarrow>
          (case loop rest of (sleeps, conns, e) \<Rightarrow> (slept # sleeps, conn # conns, e)))"
  by pat_completeness auto
termination
  by (relation "measure length") (auto simp: accept_def dest: accept_from_pending_less [OF sym])

declare loop.simps [simp del]

text \<open>
  The delay schedule in the words of the specification: 5ms at first, doubled at each
  further consecutive temporary failure, capped at one second.
\<close>

definition spec_delay :: "nat \<Rightarrow> duration" where
  "spec_delay k = word_of_nat (min (5000000 * 2 ^ k) 1000000000)"

section \<open>The client connection and its buffered reader\<close>

text \<open>
  The client socket's incoming side is the script of what its successive \<^verbatim>\<open>Read\<close> calls
  return: the bytes delivered and the error, if any. A call with room for \<open>cap\<close> bytes
  takes at most \<open>cap\<close> bytes of the next delivery and leaves the rest for the next call;
  once the script is used up the peer has closed and every call returns \<^verbatim>\<open>io.EOF\<close>.
\<close>

type_synonym read_event = "byte list \<times> error option"

fun conn_Read :: "nat \<Rightarrow> read_event list \<Rightarrow> (byte list \<times> error option) \<times> read_event list" where
  "conn_Read cap [] = (([], Some EOF), [])"
| "conn_Read cap ((d, e) # rest) =
     (if length d \<le> cap then ((d, e), rest)
      else ((take cap d, None), (drop cap d, e) # rest))"

text \<open>
  \<^verbatim>\<open>bufio.Reader\<close>, as the standard library implements it. \<open>buffered\<close> is
  \<^verbatim>\<open>buf[r:w]\<close>, \<open>rpos\<close> is \<^verbatim>\<open>r\<close> (so \<^verbatim>\<open>w\<close> is \<open>rpos + length buffered\<close>), \<open>rerr\<close> is the
  pending \<^verbatim>\<open>err\<close>, \<open>lastByte\<close> is \<open>None\<close> for \<^verbatim>\<open>-1\<close>, and \<open>rd\<close> tells whether an
  underlying reader is attached (\<^verbatim>\<open>Reset(nil)\<close> detaches it). The buffer holds
  \<^verbatim>\<open>defaultBufSize\<close> bytes.
\<close>

record reader =
  buffered :: "byte list"
  rpos :: nat
  rerr :: "error option"
  lastByte :: "byte option"
  rd :: bool

definition defaultBufSize :: nat where
  "defaultBufSize = 4096"

definition maxConsecutiveEmptyReads :: nat where
  "maxConsecutiveEmptyReads = 100"

text \<open>\<^verbatim>\<open>bufio.NewReader(conn)\<close> and \<^verbatim>\<open>reader.Reset(r)\<close>: both leave \<^verbatim>\<open>r = w = 0\<close>, no error.\<close>

definition NewReader :: reader where
  "NewReader = \<lparr>buffered = [], rpos = 0, rerr = None, lastByte = None, rd = True\<rparr>"

definition Reset :: "bool \<Rightarrow> reader \<Rightarrow> reader" where
  "Reset attached b = \<lparr>buffered = [], rpos = 0, rerr = None, lastByte = None, rd = attached\<rparr>"

definition Buffered :: "reader \<Rightarrow> nat" where
  "Buffered b = length (buffered b)"

text \<open>
  \<^verbatim>\<open>fill\<close> slides the data to the start of the buffer and reads once into the free
  space, retrying up to \<^verbatim>\<open>maxConsecutiveEmptyReads\<close> times while the read returns no
  byte and no error. Its callers here only call it on a buffer that is not full.
\<close>

fun fill_loop :: "nat \<Rightarrow> reader \<Rightarrow> read_event list \<Rightarrow> reader \<times> read_event list" where
  "fill_loop 0 b cin = (b\<lparr>rerr := Some ErrNoProgress\<rparr>, cin)"
| "fill_loop (Suc i) b cin =
     (case conn_Read (defaultBufSize - (rpos b + length (buffered b))) cin of
        ((d, e), cin') \<Rightarrow>
          (let b' = b\<lparr>buffered := buffered b @ d\<rparr> in
           case e of
             Some err \<Rightarrow> (b'\<lparr>rerr := Some err\<rparr>, cin')
           | None \<Rightarrow> if d \<noteq> [] then (b', cin') else fill_loop i b' cin'))"

definition fill :: "reader \<Rightarrow> read_event list \<Rightarrow> reader \<times> read_event list" where
  "fill b cin = fill_loop maxConsecutiveEmptyReads (b\<lparr>rpos := 0\<rparr>) cin"

lemma fill_loop_progress:
  "fill_loop i b cin = (b', cin') \<Longrightarrow>
     rerr b' \<noteq> None \<or> (rerr b' = rerr b \<and> length (buffered b) < length (buffered b'))"
proof (induction i arbitrary: b cin)
  case 0
  then show ?case by auto
next
  case (Suc i)
  obtain d e c1 where r: "conn_Read (defaultBufSize - (rpos b + length (buffered b))) cin = ((d, e), c1)"
    by (metis prod.exhaust)
  show ?case
  proof (cases e)
    case (Some err)
    with Suc.prems r show ?thesis by auto
  next
    case None
    show ?thesis
    proof (cases "d = []")
      case False
      with Suc.prems r None show ?thesis by auto
    next
      case True
      with Suc.prems r None
      have "fill_loop i (b\<lparr>buffered := buffered b @ d\<rparr>) c1 = (b', cin')" by simp
      from Suc.IH [OF this] True show ?thesis by auto
    qed
  qed
qed

lemma fill_progress:
  "fill b cin = (b', cin') \<Longrightarrow>
     rerr b' \<noteq> None \<or> (rerr b' = rerr b \<and> length (buffered b) < length (buffered b'))"
  unfolding fill_def by (drule fill_loop_progress) simp

text \<open>\<^verbatim>\<open>ReadByte\<close>: fill while the buffer is empty, give up on a pending error.\<close>

function ReadByte :: "reader \<Rightarrow> read_event list \<Rightarrow> (error + byte) \<times> reader \<times> read_event list" where
  "ReadByte b cin =
     (case buffered b of
        [] \<Rightarrow>
          (case rerr b of
             Some err \<Rightarrow> (Inl err, b\<lparr>rerr := None\<rparr>, cin)
           | None \<Rightarrow> (case fill b cin of (b', cin') \<Rightarrow> ReadByte b' cin'))
      | c # cs \<Rightarrow> (Inr c, b\<lparr>buffered := cs, rpos := rpos b + 1, lastByte := Some c\<rparr>, cin))"
  by pat_completeness auto
termination
proof (relation "measure (\<lambda>(b, cin). if buffered b \<noteq> [] then 0 else if rerr b \<noteq> None then 1 else 2)",
       goal_cases)
  case 1
  show ?case by simp
next
  case (2 b cin b' cin')
  then have e: "fill b cin = (b', cin')" by simp
  show ?case
    using fill_progress [OF e] 2(1,2) by (auto simp: e)
qed

declare ReadByte.simps [simp del]

text \<open>\<^verbatim>\<open>UnreadByte\<close>\<close>

definition UnreadByte :: "reader \<Rightarrow> error option \<times> reader" where
  "UnreadByte b =
     (case lastByte b of
        None \<Rightarrow> (Some ErrInvalidUnreadByte, b)
      | Some c \<Rightarrow>
          if rpos b = 0 \<and> 0 < rpos b + length (buffered b) then (Some ErrInvalidUnreadByte, b)
          else if 0 < rpos b
            then (None, b\<lparr>buffered := c # buffered b, rpos := rpos b - 1, lastByte := None\<rparr>)
            else (None, b\<lparr>buffered := [c], lastByte := None\<rparr>))"

text \<open>
  \<^verbatim>\<open>Read(p)\<close> with \<open>n = len(p)\<close>. The result is the bytes stored into \<^verbatim>\<open>p\<close> and the error
  returned. On an empty buffer it reads once from the connection, straight into \<^verbatim>\<open>p\<close>
  when \<^verbatim>\<open>p\<close> is at least as large as the buffer; then it copies out what fits.
\<close>

definition copy_out :: "nat \<Rightarrow> reader \<Rightarrow> byte list \<times> reader" where
  "copy_out n b =
     (let p = take n (buffered b) in
      (p, b\<lparr>buffered := drop n (buffered b), rpos := rpos b + length p,
            lastByte := (if p = [] then lastByte b else Some (last p))\<rparr>))"

definition bufio_Read ::
  "nat \<Rightarrow> reader \<Rightarrow> read_event list \<Rightarrow> (byte list \<times> error option) \<times> reader \<times> read_event list"
where
  "bufio_Read n b cin =
     (if n = 0 then
        (if 0 < Buffered b then (([], None), b, cin) else (([], rerr b), b\<lparr>rerr := None\<rparr>, cin))
      else if buffered b = [] then
        (case rerr b of
           Some err \<Rightarrow> (([], Some err), b\<lparr>rerr := None\<rparr>, cin)
         | None \<Rightarrow>
             if defaultBufSize \<le> n then
               (case conn_Read n cin of
                  ((d, e), cin') \<Rightarrow>
                    ((d, e), b\<lparr>lastByte := (if d \<noteq> [] then Some (last d) else lastByte b)\<rparr>, cin'))
             else
               (case conn_Read defaultBufSize cin of
                  ((d, e), cin') \<Rightarrow>
                    if d = [] then (([], e), b\<lparr>rpos := 0\<rparr>, cin')
                    else (case copy_out n (b\<lparr>buffered := d, rpos := 0, rerr := e\<rparr>) of
                            (p, b') \<Rightarrow> ((p, None), b', cin'))))
      else (case copy_out n b of (p, b') \<Rightarrow> ((p, None), b', cin)))"

lemma conn_Read_length:
  "conn_Read cap cin = ((d, e), cin') \<Longrightarrow> length cin' \<le> length cin \<and> length d \<le> cap"
  by (cases cin) (auto split: if_splits)

lemma conn_Read_empty:
  "conn_Read cap cin = (([], None), cin') \<Longrightarrow> 0 < cap \<Longrightarrow> length cin' < length cin"
  by (cases cin) (auto split: if_splits)

lemma bufio_Read_measure:
  assumes "bufio_Read n b cin = ((d, None), b', cin')" and "0 < n"
  shows "(n - length d) + length cin' < n + length cin"
proof (cases "buffered b = []")
  case False
  then have "d = take n (buffered b)" "cin' = cin"
    using assms by (auto simp: bufio_Read_def copy_out_def Let_def)
  then show ?thesis using False assms(2) by (cases "buffered b") auto
next
  case True
  note empty = this
  show ?thesis
  proof (cases "defaultBufSize \<le> n")
    case True
    obtain d1 e1 c1 where r: "conn_Read n cin = ((d1, e1), c1)" by (metis prod.exhaust)
    with assms empty True have eq: "d = d1" "e1 = None" "cin' = c1"
      by (auto simp: bufio_Read_def split: option.splits)
    show ?thesis
    proof (cases "d1 = []")
      case True
      then show ?thesis using conn_Read_empty [of n cin c1] r eq assms(2) by simp
    next
      case False
      then show ?thesis using conn_Read_length [OF r] eq assms(2) by (cases d1) auto
    qed
  next
    case False
    obtain d1 e1 c1 where r: "conn_Read defaultBufSize cin = ((d1, e1), c1)"
      by (metis prod.exhaust)
    show ?thesis
    proof (cases "d1 = []")
      case True
      with assms empty False r have "d = []" "e1 = None" "cin' = c1"
        by (auto simp: bufio_Read_def split: option.splits)
      then show ?thesis
        using conn_Read_empty [of defaultBufSize cin c1] r True assms(2)
        by (simp add: defaultBufSize_def)
    next
      case nonempty: False
      with assms empty False r have "d = take n d1" "cin' = c1"
        by (auto simp: bufio_Read_def copy_out_def Let_def split: option.splits)
      then show ?thesis
        using conn_Read_length [OF r] nonempty assms(2) by (cases d1) auto
    qed
  qed
qed

text \<open>
  \<^verbatim>\<open>io.ReadFull(reader, bin)\<close> is \<^verbatim>\<open>io.ReadAtLeast(reader, bin, len(bin))\<close>: call
  \<^verbatim>\<open>Read\<close> on the unfilled rest until \<open>n\<close> bytes are there or a call fails. Filling the
  slice clears the error; \<^verbatim>\<open>io.EOF\<close> after some bytes becomes \<^verbatim>\<open>io.ErrUnexpectedEOF\<close>.
\<close>

function ReadAtLeast_loop ::
  "nat \<Rightarrow> byte list \<Rightarrow> reader \<Rightarrow> read_event list
     \<Rightarrow> (byte list \<times> error option) \<times> reader \<times> read_event list"
where
  "ReadAtLeast_loop need got b cin =
     (if need = 0 then ((got, None), b, cin)
      else
        (case bufio_Read need b cin of
           ((d, e), b', cin') \<Rightarrow>
             (case e of
                None \<Rightarrow> ReadAtLeast_loop (need - length d) (got @ d) b' cin'
              | Some err \<Rightarrow> ((got @ d, Some err), b', cin'))))"
  by pat_completeness auto
termination
proof (relation "measure (\<lambda>(need, got, b, cin). need + length cin)", goal_cases)
  case 1
  show ?case by simp
next
  case (2 need got b cin p bc d e b' cin')
  then have "bufio_Read need b cin = ((d, None), b', cin')" by simp
  from bufio_Read_measure [OF this] 2(1) show ?case by simp
qed

declare ReadAtLeast_loop.simps [simp del]

definition ReadFull ::
  "nat \<Rightarrow> reader \<Rightarrow> read_event list \<Rightarrow> (byte list \<times> error option) \<times> reader \<times> read_event list"
where
  "ReadFull n b cin =
     (case ReadAtLeast_loop n [] b cin of
        ((got, e), b', cin') \<Rightarrow>
          if n \<le> length got then ((got, None), b', cin')
          else if got \<noteq> [] \<and> e = Some EOF then ((got, Some ErrUnexpectedEOF), b', cin')
          else ((got, e), b', cin'))"

text \<open>
  \<^verbatim>\<open>ReadSlice(delim)\<close>: search the buffer; failing that, return a pending error or
  \<^verbatim>\<open>ErrBufferFull\<close>, or fill and search again. (The library resumes the search where the
  last one ended; \<^verbatim>\<open>fill\<close> only appends, so that finds the same byte.)
\<close>

function ReadSlice ::
  "byte \<Rightarrow> reader \<Rightarrow> read_event list \<Rightarrow> (byte list \<times> error option) \<times> reader \<times> read_event list"
where
  "ReadSlice delim b cin =
     (if delim \<in> set (buffered b) then
        (let line = takeWhile (\<lambda>c. c \<noteq> delim) (buffered b) @ [delim] in
         ((line, None),
          b\<lparr>buffered := drop (length line) (buffered b), rpos := rpos b + length line,
            lastByte := Some delim\<rparr>, cin))
      else
        (case rerr b of
           Some err \<Rightarrow>
             ((buffered b, Some err),
              b\<lparr>buffered := [], rpos := rpos b + length (buffered b), rerr := None,
                lastByte := (if buffered b = [] then lastByte b else Some (last (buffered b)))\<rparr>,
              cin)
         | None \<Rightarrow>
             if defaultBufSize \<le> Buffered b then
               ((buffered b, Some ErrBufferFull),
                b\<lparr>buffered := [], rpos := rpos b + length (buffered b),
                  lastByte := (if buffered b = [] then lastByte b else Some (last (buffered b)))\<rparr>,
                cin)
             else (case fill b cin of (b', cin') \<Rightarrow> ReadSlice delim b' cin')))"
  by pat_completeness auto
termination
proof (relation "measure (\<lambda>(delim, b, cin).
         if rerr b \<noteq> None then 0 else 1 + (defaultBufSize - length (buffered b)))", goal_cases)
  case 1
  show ?case by simp
next
  case (2 delim b cin b' cin')
  then have e: "fill b cin = (b', cin')" by simp
  show ?case
    using fill_progress [OF e] 2 by (auto simp: e Buffered_def)
qed

declare ReadSlice.simps [simp del]

text \<open>
  \<^verbatim>\<open>reader.Peek(reader.Buffered())\<close>: with exactly the buffered count, \<^verbatim>\<open>Peek\<close> does not
  fill and cannot fail; it returns \<^verbatim>\<open>buf[r:w]\<close> and forgets the last byte read.
\<close>

definition Peek_Buffered :: "reader \<Rightarrow> (byte list \<times> error option) \<times> reader" where
  "Peek_Buffered b = ((buffered b, None), b\<lparr>lastByte := None\<rparr>)"

section \<open>The connection handler\<close>

text \<open>
  What one run of \<^verbatim>\<open>handle(conn)\<close> does to the outside is recorded as a trace of events,
  in program order. Two-argument copy events give destination, then source, as
  \<^verbatim>\<open>io.Copy(dst, src)\<close> does.
\<close>

datatype endpoint = Client | Backend

datatype agent = Agent nat

datatype event =
    ClientWrite "byte list" "error option"
  | ClientClose
  | DialTimeout "byte list"
  | AgentSetWriteDeadline bool "error option"
  | AgentWrite "byte list" "error option"
  | AgentClose
  | PoolPut
  | Go_safeCopy endpoint endpoint
  | Io_Copy endpoint endpoint
  | LogPanic

text \<open>
  The environment of one connection: the configuration globals, the Address Cipher of
  package \<^verbatim>\<open>aes256cbc\<close> (taken as given functions), the client's remote address string,
  and what the network answers: the result of the k-th write to the client socket, of
  the k-th dial, and of the k-th operation on the backend connection (\<open>None\<close> is
  success).
\<close>

record env =
  cfgSecret :: "byte list"
  cfgDialRetry :: int
  Decrypt :: "byte list \<Rightarrow> byte list \<Rightarrow> error + byte list"
  DecryptBase64 :: "byte list \<Rightarrow> byte list \<Rightarrow> error + byte list"
  RemoteAddr :: "byte list"
  client_write :: "nat \<Rightarrow> error option"
  net_dial :: "byte list \<Rightarrow> nat \<Rightarrow> error option"
  agent_op :: "nat \<Rightarrow> error option"

record state =
  rdr :: reader
  cin :: "read_event list"
  pool :: "reader list"
  trace :: "event list"
  nwrite :: nat
  ndial :: nat
  nagent :: nat

datatype 'a outcome = Returns 'a | Panics

definition codeOK :: "byte list" where "codeOK = [50, 48, 48]"
definition codeBadReq :: "byte list" where "codeBadReq = [52, 48, 48]"
definition codeBadAddr :: "byte list" where "codeBadAddr = [52, 48, 49]"
definition codeDialErr :: "byte list" where "codeDialErr = [53, 48, 50]"
definition codeDialTimeout :: "byte list" where "codeDialTimeout = [53, 48, 51]"

definition conn_Write :: "env \<Rightarrow> byte list \<Rightarrow> state \<Rightarrow> error option \<times> state" where
  "conn_Write E p s =
     (let e = client_write E (nwrite s) in
      (e, s\<lparr>trace := trace s @ [ClientWrite p e], nwrite := nwrite s + 1\<rparr>))"

definition net_DialTimeout ::
  "env \<Rightarrow> byte list \<Rightarrow> state \<Rightarrow> (agent option \<times> error option) \<times> state"
where
  "net_DialTimeout E addr s =
     (let e = net_dial E addr (ndial s) in
      ((if e = None then Some (Agent (ndial s)) else None, e),
       s\<lparr>trace := trace s @ [DialTimeout addr], ndial := ndial s + 1\<rparr>))"

definition agent_SetWriteDeadline :: "env \<Rightarrow> bool \<Rightarrow> state \<Rightarrow> error option \<times> state" where
  "agent_SetWriteDeadline E on s =
     (let e = agent_op E (nagent s) in
      (e, s\<lparr>trace := trace s @ [AgentSetWriteDeadline on e], nagent := nagent s + 1\<rparr>))"

definition agent_Write :: "env \<Rightarrow> byte list \<Rightarrow> state \<Rightarrow> error option \<times> state" where
  "agent_Write E p s =
     (let e = agent_op E (nagent s) in
      (e, s\<lparr>trace := trace s @ [AgentWrite p e], nagent := nagent s + 1\<rparr>))"

definition agent_Close :: "state \<Rightarrow> state" where
  "agent_Close s = s\<lparr>trace := trace s @ [AgentClose]\<rparr>"

subsection \<open>Handshake\<close>

definition handshakeBinary :: "env \<Rightarrow> state \<Rightarrow> (error + byte list) \<times> state" where
  "handshakeBinary E s =
     (case ReadByte (rdr s) (cin s) of
        (Inl err, b, c) \<Rightarrow> (Inl err, snd (conn_Write E codeBadReq (s\<lparr>rdr := b, cin := c\<rparr>)))
      | (Inr n, b, c) \<Rightarrow>
          (case ReadFull (unat n) b c of
             ((bin, Some err), b', c') \<Rightarrow>
               (Inl err, snd (conn_Write E codeBadReq (s\<lparr>rdr := b', cin := c'\<rparr>)))
           | ((bin, None), b', c') \<Rightarrow>
               (case Decrypt E (cfgSecret E) bin of
                  Inl err \<Rightarrow>
                    (Inl err, snd (conn_Write E codeBadAddr (s\<lparr>rdr := b', cin := c'\<rparr>)))
                | Inr addr \<Rightarrow> (Inr addr, s\<lparr>rdr := b', cin := c'\<rparr>))))"

definition handshakeText :: "env \<Rightarrow> state \<Rightarrow> (error + byte list) \<times> state" where
  "handshakeText E s =
     (case ReadSlice 10 (rdr s) (cin s) of
        ((base64, Some err), b, c) \<Rightarrow>
          (Inl err, snd (conn_Write E codeBadReq (s\<lparr>rdr := b, cin := c\<rparr>)))
      | ((base64, None), b, c) \<Rightarrow>
          (case DecryptBase64 E (cfgSecret E) base64 of
             Inl err \<Rightarrow> (Inl err, snd (conn_Write E codeBadAddr (s\<lparr>rdr := b, cin := c\<rparr>)))
           | Inr addr \<Rightarrow> (Inr addr, s\<lparr>rdr := b, cin := c\<rparr>)))"

definition handshake :: "env \<Rightarrow> state \<Rightarrow> (error + byte list) \<times> state" where
  "handshake E s =
     (case ReadByte (rdr s) (cin s) of
        (Inl err, b, c) \<Rightarrow> (Inl err, snd (conn_Write E codeBadReq (s\<lparr>rdr := b, cin := c\<rparr>)))
      | (Inr firstByte, b, c) \<Rightarrow>
          if firstByte = 0 then handshakeBinary E (s\<lparr>rdr := b, cin := c\<rparr>)
          else
            (case UnreadByte b of
               (Some err, b') \<Rightarrow> (Inl err, s\<lparr>rdr := b', cin := c\<rparr>)
             | (None, b') \<Rightarrow> handshakeText E (s\<lparr>rdr := b', cin := c\<rparr>)))"

subsection \<open>Agent bootstrap\<close>

text \<open>Go's builtin \<^verbatim>\<open>copy(dst, src)\<close> on slices: the result is the new content of \<^verbatim>\<open>dst\<close>.\<close>

definition copy :: "byte list \<Rightarrow> byte list \<Rightarrow> byte list" where
  "copy dst src = take (length dst) src @ drop (length src) dst"

text \<open>
  The preamble buffer of \<^verbatim>\<open>agentInit\<close>:
  \<^verbatim>\<open>addrBuf := buf[:byte(len(addr)+1)]; addrBuf[0] = byte(len(addr)); copy(addrBuf[1:], addr)\<close>.
  \<^verbatim>\<open>byte(...)\<close> truncates to 8 bits; \<^verbatim>\<open>addrBuf\<close> is the zeroed \<^verbatim>\<open>buf\<close> cut to that
  length, and the store to \<^verbatim>\<open>addrBuf[0]\<close> panics (\<open>None\<close>) when the length is 0.
\<close>

definition make_addrBuf :: "byte list \<Rightarrow> byte list option" where
  "make_addrBuf addr =
     (let addrBuf = replicate (unat (word_of_nat (length addr + 1) :: byte)) (0 :: byte) in
      if addrBuf = [] then None
      else
        (let addrBuf = addrBuf[0 := word_of_nat (length addr)] in
         Some (hd addrBuf # copy (tl addrBuf) addr)))"

text \<open>\<^verbatim>\<open>agentInit\<close>. A method call on the nil \<^verbatim>\<open>net.Conn\<close> panics.\<close>

definition agentInit :: "env \<Rightarrow> agent option \<Rightarrow> state \<Rightarrow> error option outcome \<times> state" where
  "agentInit E agent s =
     (case agent of
        None \<Rightarrow> (Panics, s)
      | Some a \<Rightarrow>
          (case agent_SetWriteDeadline E True s of
             (Some err, s1) \<Rightarrow> (Returns (Some err), s1)
           | (None, s1) \<Rightarrow>
               (case make_addrBuf (RemoteAddr E) of
                  None \<Rightarrow> (Panics, s1)
                | Some addrBuf \<Rightarrow>
                    (case agent_Write E addrBuf s1 of
                       (Some err, s2) \<Rightarrow> (Returns (Some err), s2)
                     | (None, s2) \<Rightarrow>
                         (case Peek_Buffered (rdr s2) of
                            ((data, Some err), b) \<Rightarrow> (Returns (Some err), s2\<lparr>rdr := b\<rparr>)
                          | ((data, None), b) \<Rightarrow>
                              (case agent_Write E data (s2\<lparr>rdr := b\<rparr>) of
                                 (Some err, s3) \<Rightarrow> (Returns (Some err), s3)
                               | (None, s3) \<Rightarrow>
                                   (case agent_SetWriteDeadline E False s3 of
                                      (e, s4) \<Rightarrow> (Returns e, s4))))))))"

subsection \<open>Dial\<close>

text \<open>
  The \<^verbatim>\<open>for\<close> loop of \<^verbatim>\<open>dial\<close>, from the current \<^verbatim>\<open>i\<close>, \<^verbatim>\<open>agent\<close> and \<^verbatim>\<open>err\<close>. It ends
  either by returning from \<^verbatim>\<open>dial\<close> (\<open>LoopReturn\<close>) or by leaving the loop
  (\<open>LoopDone\<close>, on \<^verbatim>\<open>break\<close> or when the condition fails). \<^verbatim>\<open>i\<close> stays below
  \<^verbatim>\<open>cfgDialRetry\<close>, so \<^verbatim>\<open>i++\<close> cannot overflow.
\<close>

datatype dial_loop_exit =
    LoopReturn "agent option" "error option"
  | LoopDone "agent option" "error option"

function dial_loop ::
  "env \<Rightarrow> byte list \<Rightarrow> int \<Rightarrow> agent option \<Rightarrow> error option \<Rightarrow> state \<Rightarrow> dial_loop_exit \<times> state"
where
  "dial_loop E addr i agent err s =
     (if i < cfgDialRetry E then
        (case net_DialTimeout E addr s of
           ((agent', err'), s1) \<Rightarrow>
             (case err' of
                None \<Rightarrow> (LoopDone agent' err', s1)
              | Some e \<Rightarrow>
                  if is_timeout e then dial_loop E addr (i + 1) agent' err' s1
                  else (LoopReturn None err', snd (conn_Write E codeDialErr s1))))
      else (LoopDone agent err, s))"
  by pat_completeness auto
termination
  by (relation "measure (\<lambda>(E, addr, i, agent, err, s). nat (cfgDialRetry E - i))") auto

declare dial_loop.simps [simp del]

definition dial ::
  "env \<Rightarrow> byte list \<Rightarrow> state \<Rightarrow> (agent option \<times> error option) outcome \<times> state"
where
  "dial E addr s =
     (case dial_loop E addr 0 None None s of
        (LoopReturn agent err, s1) \<Rightarrow> (Returns (agent, err), s1)
      | (LoopDone agent err, s1) \<Rightarrow>
          (case err of
             Some e \<Rightarrow> (Returns (None, err), snd (conn_Write E codeDialTimeout s1))
           | None \<Rightarrow>
               (case agentInit E agent s1 of
                  (Panics, s2) \<Rightarrow> (Panics, s2)
                | (Returns (Some e), s2) \<Rightarrow>
                    (Returns (None, Some e), snd (conn_Write E codeDialErr (agent_Close s2)))
                | (Returns None, s2) \<Rightarrow> (Returns (agent, None), s2))))"

subsection \<open>The handler\<close>

text \<open>
  \<^verbatim>\<open>bufioPool.Get()\<close>: \<^verbatim>\<open>sync.Pool\<close> hands out any pooled item or nothing; \<open>pick\<close> is
  its choice.
\<close>

definition pool_Get :: "nat option \<Rightarrow> reader list \<Rightarrow> reader option \<times> reader list" where
  "pool_Get pick p =
     (case pick of
        None \<Rightarrow> (None, p)
      | Some i \<Rightarrow> if i < length p then (Some (p ! i), take i p @ drop (Suc i) p) else (None, p))"

text \<open>\<^verbatim>\<open>reader.Reset(nil); bufioPool.Put(reader)\<close>\<close>

definition release :: "state \<Rightarrow> state" where
  "release s =
     (let r = Reset False (rdr s) in
      s\<lparr>rdr := r, pool := pool s @ [r], trace := trace s @ [PoolPut]\<rparr>)"

text \<open>
  The body of \<^verbatim>\<open>handle\<close> after the reader is set up, up to its return or panic. Beside
  the outcome it reports \<^verbatim>\<open>bufioReleased\<close> and the agent whose \<^verbatim>\<open>Close\<close> was deferred.
\<close>

definition handle_body :: "env \<Rightarrow> state \<Rightarrow> (unit outcome \<times> bool \<times> agent option) \<times> state" where
  "handle_body E s =
     (case handshake E s of
        (Inl err, s1) \<Rightarrow> ((Returns (), False, None), s1)
      | (Inr addr, s1) \<Rightarrow>
          (case dial E addr s1 of
             (Panics, s2) \<Rightarrow> ((Panics, False, None), s2)
           | (Returns (agent, Some err), s2) \<Rightarrow> ((Returns (), False, None), s2)
           | (Returns (None, None), s2) \<Rightarrow> ((Panics, False, None), s2)
           | (Returns (Some a, None), s2) \<Rightarrow>
               (case conn_Write E codeOK (release s2) of
                  (Some err, s3) \<Rightarrow> ((Returns (), True, Some a), s3)
                | (None, s3) \<Rightarrow>
                    ((Returns (), True, Some a),
                     s3\<lparr>trace := trace s3 @ [Go_safeCopy Backend Client, Io_Copy Client Backend]\<rparr>))))"

text \<open>
  The start of \<^verbatim>\<open>handle\<close>: a pooled reader is reset onto the connection, and a new
  one is made when the pool gives none.
\<close>

definition borrow :: "nat option \<Rightarrow> reader list \<Rightarrow> reader \<times> reader list" where
  "borrow pick p =
     (case pool_Get pick p of
        (Some r, p') \<Rightarrow> (Reset True r, p')
      | (None, p') \<Rightarrow> (NewReader, p'))"

text \<open>
  \<^verbatim>\<open>handle\<close>: borrow the reader, run the body, then the deferred calls in reverse
  order: \<^verbatim>\<open>agent.Close()\<close>, the release of the reader unless done, \<^verbatim>\<open>conn.Close()\<close>
  and the \<^verbatim>\<open>recover\<close> that logs a panic.
\<close>

definition handle :: "env \<Rightarrow> nat option \<Rightarrow> state \<Rightarrow> state" where
  "handle E pick s0 =
     (case borrow pick (pool s0) of
        (reader, p) \<Rightarrow>
          (case handle_body E (s0\<lparr>rdr := reader, pool := p\<rparr>) of
             ((out, bufioReleased, agent), s1) \<Rightarrow>
               (let s2 = (case agent of Some a \<Rightarrow> agent_Close s1 | None \<Rightarrow> s1);
                    s3 = (if \<not> bufioReleased then release s2 else s2);
                    s4 = s3\<lparr>trace := trace s3 @ [ClientClose]\<rparr>
                in case out of
                     Panics \<Rightarrow> s4\<lparr>trace := trace s4 @ [LogPanic]\<rparr>
                   | Returns u \<Rightarrow> s4)))"

section \<open>Configuration\<close>

text \<open>
  \<^verbatim>\<open>strconv.Atoi\<close> on a decimal string: an optional sign, then digits only, and the
  value must fit Go's 64-bit \<^verbatim>\<open>int\<close>. \<open>None\<close> is the error return.
\<close>

definition digit_val :: "char \<Rightarrow> nat option" where
  "digit_val c =
     (let n = of_char c :: nat in if 48 \<le> n \<and> n \<le> 57 then Some (n - 48) else None)"

fun parse_digits :: "nat \<Rightarrow> string \<Rightarrow> nat option" where
  "parse_digits acc [] = Some acc"
| "parse_digits acc (c # cs) =
     (case digit_val c of None \<Rightarrow> None | Some d \<Rightarrow> parse_digits (acc * 10 + d) cs)"

definition Atoi :: "string \<Rightarrow> int option" where
  "Atoi v =
     (let neg = (v \<noteq> [] \<and> hd v = CHR ''-'');
          ds = (if v \<noteq> [] \<and> (hd v = CHR ''-'' \<or> hd v = CHR ''+'') then tl v else v)
      in if ds = [] then None
         else
           (case parse_digits 0 ds of
              None \<Rightarrow> None
            | Some n \<Rightarrow>
                (let i = (if neg then - int n else int n)
                 in if - (2 ^ 63) \<le> i \<and> i < 2 ^ 63 then Some i else None)))"

text \<open>
  The part of \<^verbatim>\<open>config\<close> that sets \<^verbatim>\<open>cfgDialRetry\<close> from \<^verbatim>\<open>GW_DIAL_RETRY\<close>: the default
  is 1, a parse error ends the process (\<open>None\<close>), and only the value 0 is replaced by 1.
\<close>

definition config_DialRetry :: "string \<Rightarrow> int option" where
  "config_DialRetry v =
     (if v \<noteq> [] then
        (case Atoi v of
           None \<Rightarrow> None
         | Some n \<Rightarrow> Some (if n = 0 then 1 else n))
      else Some 1)"

section \<open>Reading a trace\<close>

text \<open>
  What a trace shows at each party: the byte strings written to the client socket, the
  sequence of writes and closes on the client socket, the addresses dialled, the bytes
  the backend received (from the writes that succeeded), the copy tasks of the relay,
  the returns of a reader to the pool, and the panics logged.
\<close>

definition tokens :: "event list \<Rightarrow> byte list list" where
  "tokens t = concat (map (\<lambda>ev. case ev of ClientWrite p e \<Rightarrow> [p] | _ \<Rightarrow> []) t)"

definition client_events :: "event list \<Rightarrow> event list" where
  "client_events t =
     filter (\<lambda>ev. case ev of ClientWrite p e \<Rightarrow> True | ClientClose \<Rightarrow> True | _ \<Rightarrow> False) t"

definition dial_attempts :: "event list \<Rightarrow> byte list list" where
  "dial_attempts t = concat (map (\<lambda>ev. case ev of DialTimeout a \<Rightarrow> [a] | _ \<Rightarrow> []) t)"

definition backend_received :: "event list \<Rightarrow> byte list" where
  "backend_received t =
     concat (map (\<lambda>ev. case ev of AgentWrite p None \<Rightarrow> p | _ \<Rightarrow> []) t)"

definition relay_events :: "event list \<Rightarrow> event list" where
  "relay_events t =
     filter (\<lambda>ev. case ev of Go_safeCopy d s \<Rightarrow> True | Io_Copy d s \<Rightarrow> True | _ \<Rightarrow> False) t"

definition pool_puts :: "event list \<Rightarrow> nat" where
  "pool_puts t = length (filter (\<lambda>ev. ev = PoolPut) t)"

definition log_events :: "event list \<Rightarrow> event list" where
  "log_events t = filter (\<lambda>ev. ev = LogPanic) t"

text \<open>Events on the backend connection.\<close>

fun agent_event :: "event \<Rightarrow> bool" where
  "agent_event (AgentSetWriteDeadline on e) = True"
| "agent_event (AgentWrite p e) = True"
| "agent_event AgentClose = True"
| "agent_event _ = False"

section \<open>Sample environment\<close>

text \<open>
  A small environment for running the model: a toy cipher that accepts one ciphertext
  and one base64 line for the address \<^verbatim>\<open>AB\<close>, a network on which every operation
  succeeds, and a handler state with nothing done yet.
\<close>

definition sample_env :: env where
  "sample_env =
     \<lparr>cfgSecret = [1, 2, 3], cfgDialRetry = 3,
      Decrypt = (\<lambda>k c. if c = [9, 9] then Inr [65, 66] else Inl (OtherError ''cipher'')),
      DecryptBase64 = (\<lambda>k c. if c = [67, 81, 107, 61, 10] then Inr [65, 66]
                              else Inl (OtherError ''cipher'')),
      RemoteAddr = [49, 50, 51],
      client_write = (\<lambda>k. None),
      net_dial = (\<lambda>a k. None),
      agent_op = (\<lambda>k. None)\<rparr>"

definition start :: "read_event list \<Rightarrow> state" where
  "start c = \<lparr>rdr = NewReader, cin = c, pool = [], trace = [], nwrite = 0, ndial = 0, nagent = 0\<rparr>"

section \<open>Client streams\<close>

text \<open>
  The bytes a client sends, whatever the pieces they arrive in; and the streams of a
  well-behaved TCP connection, on which every \<^verbatim>\<open>Read\<close> delivers at least one byte and no
  error until the peer closes.
\<close>

definition stream_bytes :: "read_event list \<Rightarrow> byte list" where
  "stream_bytes c = concat (map fst c)"

definition clean_stream :: "read_event list \<Rightarrow> bool" where
  "clean_stream c = list_all (\<lambda>ev. fst ev \<noteq> [] \<and> snd ev = None) c"

section \<open>Base64\<close>

text \<open>
  Modelled from the spec: the package \<^verbatim>\<open>aes256cbc\<close> is not among the sources, so the
  cipher is a parameter of the environment. The spec's Text frame is a base64-encoded
  ciphertext line; \<open>base64_encode\<close> is that encoding as a client applies it: three bytes
  give four characters of the standard alphabet, and a last group of one or two bytes is
  padded with \<^verbatim>\<open>=\<close>.
\<close>

definition b64char :: "nat \<Rightarrow> byte" where
  "b64char v =
     (if v < 26 then word_of_nat (65 + v)
      else if v < 52 then word_of_nat (97 + (v - 26))
      else if v < 62 then word_of_nat (48 + (v - 52))
      else if v = 62 then 43 else 47)"

fun base64_encode :: "byte list \<Rightarrow> byte list" where
  "base64_encode [] = []"
| "base64_encode [a] =
     [b64char (unat a div 4), b64char (unat a mod 4 * 16), 61, 61]"
| "base64_encode [a, b] =
     [b64char (unat a div 4), b64char (unat a mod 4 * 16 + unat b div 16),
      b64char (unat b mod 16 * 4), 61]"
| "base64_encode (a # b # c # rest) =
     [b64char (unat a div 4), b64char (unat a mod 4 * 16 + unat b div 16),
      b64char (unat b mod 16 * 4 + unat c div 64), b64char (unat c mod 64)]
     @ base64_encode rest"

section \<open>Accept loop: proofs\<close>

lemma sint_word_of_nat_small: "m < 2 ^ 63 \<Longrightarrow> sint (word_of_nat m :: 64 word) = int m"
  by (simp add: signed_of_nat signed_take_bit_int_eq_self)

lemma word_of_nat_small_eq_0: "m < 2 ^ 63 \<Longrightarrow> (word_of_nat m :: 64 word) = 0 \<longleftrightarrow> m = 0"
  by (metis sint_word_of_nat_small of_nat_eq_0_iff sint_0 semiring_1_class.of_nat_0)

lemma next_tempDelay_nat:
  assumes "m \<le> 1000000000"
  shows "next_tempDelay (word_of_nat m) =
         word_of_nat (if m = 0 then 5000000 else min (2 * m) 1000000000)"
proof -
  have m63: "m < 2 ^ 63" "2 * m < 2 ^ 63" using assms by simp_all
  have dbl: "(word_of_nat m :: 64 word) * 2 = word_of_nat (2 * m)" by simp
  have s1: "sint Second = 1000000000" by (simp add: Second_def)
  show ?thesis
  proof (cases "m = 0")
    case True
    then show ?thesis
      by (simp add: next_tempDelay_def Millisecond_def Second_def word_sless_alt)
  next
    case False
    then have nz: "(word_of_nat m :: 64 word) \<noteq> 0"
      using word_of_nat_small_eq_0 m63 by blast
    have "sint (word_of_nat (2 * m) :: 64 word) = int (2 * m)"
      using m63 by (rule_tac sint_word_of_nat_small)
    then show ?thesis using False nz
      by (auto simp: next_tempDelay_def Let_def word_sless_alt s1 dbl min_def Second_def
               simp del: of_nat_mult)
  qed
qed

lemma next_tempDelay_first: "next_tempDelay 0 = spec_delay 0"
  using next_tempDelay_nat [of 0] by (simp add: spec_delay_def)

lemma next_tempDelay_spec: "next_tempDelay (spec_delay k) = spec_delay (Suc k)"
proof -
  let ?m = "min (5000000 * 2 ^ k) (1000000000::nat)"
  have "?m \<le> 1000000000" "?m \<noteq> 0" by simp_all
  then have "next_tempDelay (word_of_nat ?m) = word_of_nat (min (2 * ?m) 1000000000)"
    using next_tempDelay_nat [of ?m] by simp
  moreover have "min (2 * ?m) 1000000000 = min (5000000 * 2 ^ Suc k) (1000000000::nat)"
    by (simp add: min_def)
  ultimately show ?thesis by (simp only: spec_delay_def)
qed

lemma sint_spec_delay: "sint (spec_delay k) = int (min (5000000 * 2 ^ k) 1000000000)"
proof -
  have "min (5000000 * 2 ^ k) (1000000000::nat) < 2 ^ 63"
    by (rule le_less_trans [OF min.cobounded2]) simp
  then show ?thesis
    unfolding spec_delay_def by (simp add: sint_word_of_nat_small)
qed

lemma accept_from_spec_delay:
  assumes "\<forall>e \<in> set errs. is_temporary e"
  shows "accept_from (spec_delay k) (map Inl errs @ tail) =
         (case accept_from (spec_delay (k + length errs)) tail of
            (slept, d, res, rest) \<Rightarrow>
              (map spec_delay [Suc k ..< Suc k + length errs] @ slept, d, res, rest))"
  using assms
proof (induction errs arbitrary: k)
  case Nil
  then show ?case by (simp split: prod.splits)
next
  case (Cons e errs)
  then have "accept_from (spec_delay (Suc k)) (map Inl errs @ tail) =
         (case accept_from (spec_delay (Suc k + length errs)) tail of
            (slept, d, res, rest) \<Rightarrow>
              (map spec_delay [Suc (Suc k) ..< Suc (Suc k) + length errs] @ slept, d, res, rest))"
    by simp
  moreover have "[Suc k ..< Suc k + length (e # errs)] =
                 Suc k # [Suc (Suc k) ..< Suc (Suc k) + length errs]"
    by (simp add: upt_rec)
  ultimately show ?case using Cons.prems
    by (simp add: next_tempDelay_spec split: prod.splits)
qed

lemma accept_temporary:
  assumes "\<forall>e \<in> set errs. is_temporary e"
  shows "accept (map Inl errs @ tail) =
         (case accept_from (if errs = [] then 0 else spec_delay (length errs - 1)) tail of
            (slept, d, res, rest) \<Rightarrow> (map spec_delay [0 ..< length errs] @ slept, d, res, rest))"
proof (cases errs)
  case Nil
  then show ?thesis by (simp add: accept_def split: prod.splits)
next
  case (Cons e es)
  have "[0 ..< length errs] = 0 # [Suc 0 ..< Suc 0 + length es]"
    using Cons by (simp add: upt_rec)
  moreover have "\<forall>e \<in> set es. is_temporary e" "is_temporary e"
    using assms Cons by simp_all
  ultimately show ?thesis using Cons accept_from_spec_delay [of es 0 tail]
    by (simp add: accept_def next_tempDelay_first split: prod.splits)
qed

text \<open>
  C8. In \<^verbatim>\<open>accept\<close>, a run of consecutive temporary errors sleeps 5ms, then twice the
  previous delay at each further failure, never more than one second: the k-th sleep
  (from 0) is \<open>min (5ms * 2 ^ k) 1s\<close>, so the delays never decrease. A successful accept
  after them leaves \<^verbatim>\<open>tempDelay\<close> at 0, and the accept call that \<^verbatim>\<open>loop\<close> makes next
  starts the schedule again at 5ms.
\<close>

theorem accept_backoff_schedule:
  assumes "\<forall>e \<in> set errs. is_temporary e"
  shows "accept (map Inl errs @ Inr conn # rest) =
           (map spec_delay [0 ..< length errs], 0, Some (Inr conn), rest)
       \<and> loop (map Inl errs @ Inr conn # rest) =
           (case loop rest of (sleeps, conns, e) \<Rightarrow>
              (map spec_delay [0 ..< length errs] # sleeps, conn # conns, e))
       \<and> spec_delay 0 = 5 * Millisecond
       \<and> (\<forall>k. sint (spec_delay (Suc k)) = min (2 * sint (spec_delay k)) (sint (1 * Second)))
       \<and> (\<forall>k. spec_delay k \<le>s 1 * Second)
       \<and> (\<forall>k. spec_delay k \<le>s spec_delay (Suc k))"
proof -
  have a: "accept (map Inl errs @ Inr conn # rest) =
           (map spec_delay [0 ..< length errs], 0, Some (Inr conn), rest)"
    using accept_temporary [OF assms, of "Inr conn # rest"] by simp
  have l: "loop (map Inl errs @ Inr conn # rest) =
           (case loop rest of (sleeps, conns, e) \<Rightarrow>
              (map spec_delay [0 ..< length errs] # sleeps, conn # conns, e))"
    by (subst loop.simps) (simp add: a)
  have z: "spec_delay 0 = 5 * Millisecond"
    by (simp add: spec_delay_def Millisecond_def)
  have s: "sint (1 * Second) = 1000000000"
    by (simp add: Second_def)
  have d: "sint (spec_delay (Suc k)) = min (2 * sint (spec_delay k)) (sint (1 * Second))" for k
    unfolding sint_spec_delay s by (simp add: min_def)
  have c: "spec_delay k \<le>s 1 * Second" for k
    unfolding word_sle_eq sint_spec_delay s by simp
  have m: "spec_delay k \<le>s spec_delay (Suc k)" for k
    unfolding word_sle_eq sint_spec_delay by (simp add: min_def)
  from a l z d c m show ?thesis by blast
qed

theorem accept_backoff_schedule_witness:
  "is_temporary (NetError False True) \<and> is_temporary (NetError True True)
   \<and> accept ([Inl (NetError False True), Inl (NetError True True), Inl (NetError False True),
              Inr (7::nat), Inl EOF]) =
       ([5000000, 10000000, 20000000], 0, Some (Inr 7), [Inl EOF])"
proof -
  have h: "\<forall>e \<in> set [NetError False True, NetError True True, NetError False True]. is_temporary e"
    by simp
  have u: "[0 ..< 3] = [0, Suc 0, Suc (Suc 0)]"
    by (simp add: upt_rec)
  show ?thesis
    using h accept_backoff_schedule [OF h, of "7::nat" "[Inl EOF]"]
    by (simp add: u spec_delay_def)
qed

section \<open>Agent bootstrap: the preamble buffer\<close>

lemma make_addrBuf_eq:
  "make_addrBuf addr =
     (if (length addr + 1) mod 256 = 0 then None
      else Some (word_of_nat (length addr) # take ((length addr + 1) mod 256 - 1) addr))"
proof -
  let ?k = "(length addr + 1) mod 256"
  have u: "unat (word_of_nat (length addr + 1) :: byte) = ?k"
    using unat_of_nat [where 'a = 8, of "length addr + 1"] by simp
  show ?thesis
  proof (cases "?k = 0")
    case True
    then show ?thesis unfolding make_addrBuf_def u by simp
  next
    case False
    then obtain j where j: "?k = Suc j" by (cases ?k) auto
    have "j \<le> length addr"
    proof -
      have "?k \<le> length addr + 1" by (rule mod_less_eq_dividend)
      with j show ?thesis by simp
    qed
    then have "copy (replicate j 0) addr = take j addr"
      by (simp add: copy_def)
    then show ?thesis unfolding make_addrBuf_def u j by (simp add: Let_def)
  qed
qed

lemma make_addrBuf_short:
  assumes "length addr \<le> 254"
  shows "make_addrBuf addr = Some (word_of_nat (length addr) # addr)"
    and "unat (word_of_nat (length addr) :: byte) = length addr"
  using assms by (simp_all add: make_addrBuf_eq unat_of_nat)

lemma make_addrBuf_wrap:
  assumes "length addr mod 256 \<noteq> 255"
  shows "make_addrBuf addr =
         Some (word_of_nat (length addr mod 256) # take (length addr mod 256) addr)"
proof -
  have k: "Suc (length addr) mod 256 = Suc (length addr mod 256)"
    using assms by (simp add: mod_Suc)
  have "(word_of_nat (length addr mod 256) :: byte) = word_of_nat (length addr)"
    by (simp add: word_of_nat_eq_iff take_bit_eq_mod)
  then show ?thesis by (simp add: make_addrBuf_eq k)
qed

lemma make_addrBuf_panic:
  assumes "length addr mod 256 = 255"
  shows "make_addrBuf addr = None"
proof -
  have "(length addr + 1) mod 256 = 0"
    using assms by (simp add: mod_Suc)
  then show ?thesis by (simp add: make_addrBuf_eq)
qed

section \<open>Traces: projections\<close>

lemmas proj_defs =
  tokens_def client_events_def dial_attempts_def backend_received_def relay_events_def pool_puts_def
  log_events_def

lemma proj_append:
  "tokens (t @ u) = tokens t @ tokens u"
  "client_events (t @ u) = client_events t @ client_events u"
  "dial_attempts (t @ u) = dial_attempts t @ dial_attempts u"
  "backend_received (t @ u) = backend_received t @ backend_received u"
  "relay_events (t @ u) = relay_events t @ relay_events u"
  "pool_puts (t @ u) = pool_puts t + pool_puts u"
  "log_events (t @ u) = log_events t @ log_events u"
  by (simp_all add: proj_defs)

lemma proj_Nil:
  "tokens [] = []" "client_events [] = []" "dial_attempts [] = []"
  "backend_received [] = []" "relay_events [] = []" "pool_puts [] = 0" "log_events [] = []"
  by (simp_all add: proj_defs)

lemma proj_agent_event:
  assumes "agent_event ev"
  shows "tokens (ev # evs) = tokens evs" "client_events (ev # evs) = client_events evs"
    "dial_attempts (ev # evs) = dial_attempts evs" "relay_events (ev # evs) = relay_events evs"
    "pool_puts (ev # evs) = pool_puts evs" "log_events (ev # evs) = log_events evs"
  using assms by (cases ev; simp add: proj_defs)+

lemma proj_agent_events:
  assumes "\<forall>ev \<in> set evs. agent_event ev"
  shows "tokens evs = []" "client_events evs = []" "dial_attempts evs = []"
    "relay_events evs = []" "pool_puts evs = 0" "log_events evs = []"
  using assms by (induction evs) (simp_all add: proj_Nil proj_agent_event)

section \<open>Agent bootstrap: what it does\<close>

lemma agentInit_nil: "agentInit E None s = (Panics, s)"
  by (simp add: agentInit_def)

lemma agentInit_frame:
  assumes "agentInit E agent s = (r, s')"
  shows "\<exists>evs. trace s' = trace s @ evs \<and> (\<forall>ev \<in> set evs. agent_event ev)"
    and "pool s' = pool s" and "cin s' = cin s" and "buffered (rdr s') = buffered (rdr s)"
    and "nwrite s' = nwrite s" and "ndial s' = ndial s"
  using assms
  by (auto simp: agentInit_def agent_SetWriteDeadline_def agent_Write_def Peek_Buffered_def
        Let_def split: option.splits)

lemma agentInit_success:
  assumes "agentInit E agent s = (Returns None, s')"
  shows "\<exists>a addrBuf. agent = Some a \<and> make_addrBuf (RemoteAddr E) = Some addrBuf \<and>
           trace s' = trace s @ [AgentSetWriteDeadline True None, AgentWrite addrBuf None,
                                 AgentWrite (buffered (rdr s)) None,
                                 AgentSetWriteDeadline False None]"
  using assms
  by (auto simp: agentInit_def agent_SetWriteDeadline_def agent_Write_def Peek_Buffered_def
        Let_def split: option.splits)

lemma agentInit_panic:
  assumes "make_addrBuf (RemoteAddr E) = None" and "agent_op E (nagent s) = None"
  shows "agentInit E (Some a) s =
         (Panics, s\<lparr>trace := trace s @ [AgentSetWriteDeadline True None],
                     nagent := nagent s + 1\<rparr>)"
  using assms by (simp add: agentInit_def agent_SetWriteDeadline_def Let_def)

lemma agentInit_first_write:
  assumes "agent_op E (nagent s) = None" and "make_addrBuf (RemoteAddr E) = Some addrBuf"
  shows "\<exists>evs. trace (snd (agentInit E (Some a) s)) =
           trace s @ AgentSetWriteDeadline True None
             # AgentWrite addrBuf (agent_op E (nagent s + 1)) # evs"
  using assms
  by (auto simp: agentInit_def agent_SetWriteDeadline_def agent_Write_def Peek_Buffered_def
        Let_def split: option.splits)

text \<open>
  C9 (as amended). \<^verbatim>\<open>agentInit\<close> never checks the length of the remote address. Up to
  254 bytes the preamble is the exact length byte followed by the address. From 255
  bytes on the length byte is the length modulo 256 and only that many bytes of the
  address follow, with no error, except when the length is 255 modulo 256: then the
  slice has length 0, the store to its first byte panics, and nothing is written to the
  backend. Whatever buffer results is written as it is.
\<close>

theorem preamble_length_byte:
  "(length addr \<le> 254 \<longrightarrow>
      make_addrBuf addr = Some (word_of_nat (length addr) # addr) \<and>
      unat (word_of_nat (length addr) :: byte) = length addr)
   \<and> (255 \<le> length addr \<and> length addr mod 256 \<noteq> 255 \<longrightarrow>
      make_addrBuf addr =
        Some (word_of_nat (length addr mod 256) # take (length addr mod 256) addr))
   \<and> (length addr mod 256 = 255 \<longrightarrow> make_addrBuf addr = None)
   \<and> (RemoteAddr E = addr \<and> agent_op E (nagent s) = None \<longrightarrow>
      (case make_addrBuf addr of
         None \<Rightarrow>
           agentInit E (Some a) s =
             (Panics, s\<lparr>trace := trace s @ [AgentSetWriteDeadline True None],
                         nagent := nagent s + 1\<rparr>)
       | Some addrBuf \<Rightarrow>
           (\<exists>evs. trace (snd (agentInit E (Some a) s)) =
              trace s @ AgentSetWriteDeadline True None
                # AgentWrite addrBuf (agent_op E (nagent s + 1)) # evs)))"
proof (intro conjI impI)
  assume "length addr \<le> 254"
  then show "make_addrBuf addr = Some (word_of_nat (length addr) # addr)"
    and "unat (word_of_nat (length addr) :: byte) = length addr"
    by (rule make_addrBuf_short)+
next
  assume "255 \<le> length addr \<and> length addr mod 256 \<noteq> 255"
  then show "make_addrBuf addr =
      Some (word_of_nat (length addr mod 256) # take (length addr mod 256) addr)"
    by (simp add: make_addrBuf_wrap)
next
  assume "length addr mod 256 = 255"
  then show "make_addrBuf addr = None" by (rule make_addrBuf_panic)
next
  assume h: "RemoteAddr E = addr \<and> agent_op E (nagent s) = None"
  show "case make_addrBuf addr of
         None \<Rightarrow>
           agentInit E (Some a) s =
             (Panics, s\<lparr>trace := trace s @ [AgentSetWriteDeadline True None],
                         nagent := nagent s + 1\<rparr>)
       | Some addrBuf \<Rightarrow>
           (\<exists>evs. trace (snd (agentInit E (Some a) s)) =
              trace s @ AgentSetWriteDeadline True None
                # AgentWrite addrBuf (agent_op E (nagent s + 1)) # evs)"
  proof (cases "make_addrBuf addr")
    case None
    with h show ?thesis by (simp add: agentInit_panic)
  next
    case (Some addrBuf)
    with h agentInit_first_write [of E s addrBuf a] show ?thesis by simp
  qed
qed

theorem preamble_length_byte_witness:
  "make_addrBuf [49, 50, 51] = Some [3, 49, 50, 51]
   \<and> make_addrBuf (replicate 300 7) = Some (44 # replicate 44 7)
   \<and> make_addrBuf (replicate 255 7) = None
   \<and> fst (agentInit (sample_env\<lparr>RemoteAddr := replicate 255 7\<rparr>) (Some (Agent 0)) (start []))
       = Panics"
proof -
  let ?E = "sample_env\<lparr>RemoteAddr := replicate 255 7\<rparr>"
  note t1 = preamble_length_byte [of "[49, 50, 51]" sample_env "start []" "Agent 0"]
  note t2 = preamble_length_byte [of "replicate 300 7" sample_env "start []" "Agent 0"]
  note t3 = preamble_length_byte [of "replicate 255 7" ?E "start []" "Agent 0"]
  have a: "make_addrBuf [49, 50, 51] = Some [3, 49, 50, 51]"
    using t1 by simp
  have b: "make_addrBuf (replicate 300 7) = Some (44 # replicate 44 7)"
    using t2 by simp
  have c: "make_addrBuf (replicate 255 7) = None"
    using t3 by simp
  have "RemoteAddr ?E = replicate 255 7 \<and> agent_op ?E (nagent (start [])) = None"
    by (simp add: sample_env_def)
  with t3 c have "fst (agentInit ?E (Some (Agent 0)) (start [])) = Panics"
    by simp
  with a b c show ?thesis by simp
qed

text \<open>
  The claim as first stated fails at a remote address of 255 bytes: the length does not
  wrap silently, the handler panics before any byte reaches the backend.
\<close>

theorem preamble_255_panics:
  "fst (agentInit (sample_env\<lparr>RemoteAddr := replicate 255 7\<rparr>) (Some (Agent 0)) (start []))
     = Panics
   \<and> backend_received
       (trace (snd (agentInit (sample_env\<lparr>RemoteAddr := replicate 255 7\<rparr>) (Some (Agent 0))
                     (start [])))) = []"
  by (simp add: agentInit_panic make_addrBuf_panic sample_env_def start_def backend_received_def)

section \<open>Dial: the retry loop\<close>

lemma dial_loop_not_entered:
  "\<not> i < cfgDialRetry E \<Longrightarrow> dial_loop E addr i agent err s = (LoopDone agent err, s)"
  by (subst dial_loop.simps) simp

lemma dial_loop_LoopReturn:
  "dial_loop E addr i agent err s = (LoopReturn a' e', s') \<Longrightarrow>
     a' = None \<and> (\<exists>e. e' = Some e \<and> \<not> is_timeout e)"
proof (induction E addr i agent err s rule: dial_loop.induct)
  case (1 E addr i agent err s)
  show ?case
  proof (cases "i < cfgDialRetry E")
    case False
    with "1.prems" show ?thesis by (simp add: dial_loop_not_entered)
  next
    case True
    obtain ag er s1 where d: "net_DialTimeout E addr s = ((ag, er), s1)"
      by (metis prod.exhaust)
    show ?thesis
    proof (cases er)
      case None
      with "1.prems" True d show ?thesis by (subst (asm) dial_loop.simps) simp
    next
      case (Some e)
      show ?thesis
      proof (cases "is_timeout e")
        case True
        with "1.prems" \<open>i < cfgDialRetry E\<close> d Some
        have "dial_loop E addr (i + 1) ag er s1 = (LoopReturn a' e', s')"
          by (subst (asm) dial_loop.simps) simp
        with "1.IH" [OF \<open>i < cfgDialRetry E\<close> d [symmetric] refl Some True] Some
        show ?thesis by simp
      next
        case False
        with "1.prems" \<open>i < cfgDialRetry E\<close> d Some show ?thesis
          by (subst (asm) dial_loop.simps) auto
      qed
    qed
  qed
qed

lemma dial_loop_LoopDone:
  "dial_loop E addr i agent err s = (LoopDone a' None, s') \<Longrightarrow>
     (a' = agent \<and> err = None \<and> s' = s \<and> \<not> i < cfgDialRetry E)
     \<or> (\<exists>k. a' = Some (Agent k) \<and> net_dial E addr k = None \<and> ndial s' = Suc k)"
proof (induction E addr i agent err s rule: dial_loop.induct)
  case (1 E addr i agent err s)
  show ?case
  proof (cases "i < cfgDialRetry E")
    case False
    with "1.prems" show ?thesis by (simp add: dial_loop_not_entered)
  next
    case True
    obtain ag er s1 where d: "net_DialTimeout E addr s = ((ag, er), s1)"
      by (metis prod.exhaust)
    show ?thesis
    proof (cases er)
      case None
      with "1.prems" True d have "a' = ag" "s' = s1"
        by (subst (asm) dial_loop.simps, simp)+
      with d None show ?thesis
        by (auto simp: net_DialTimeout_def Let_def)
    next
      case (Some e)
      show ?thesis
      proof (cases "is_timeout e")
        case True
        with "1.prems" \<open>i < cfgDialRetry E\<close> d Some
        have "dial_loop E addr (i + 1) ag er s1 = (LoopDone a' None, s')"
          by (subst (asm) dial_loop.simps) simp
        with "1.IH" [OF \<open>i < cfgDialRetry E\<close> d [symmetric] refl Some True] Some
        show ?thesis by simp
      next
        case False
        with "1.prems" \<open>i < cfgDialRetry E\<close> d Some show ?thesis
          by (subst (asm) dial_loop.simps) auto
      qed
    qed
  qed
qed


lemma proj_replicate_DialTimeout:
  "dial_attempts (replicate k (DialTimeout addr)) = replicate k addr"
  "tokens (replicate k (DialTimeout addr)) = []"
  "client_events (replicate k (DialTimeout addr)) = []"
  "relay_events (replicate k (DialTimeout addr)) = []"
  "pool_puts (replicate k (DialTimeout addr)) = 0"
  "log_events (replicate k (DialTimeout addr)) = []"
  "backend_received (replicate k (DialTimeout addr)) = []"
  by (induction k) (simp_all add: proj_defs)




section \<open>Dial: results\<close>

lemma dial_not_nil_nil: "fst (dial E addr s) \<noteq> Returns (None, None)"
proof -
  obtain x s1 where l: "dial_loop E addr 0 None None s = (x, s1)" by (metis prod.exhaust)
  show ?thesis
  proof (cases x)
    case (LoopReturn a e)
    with l dial_loop_LoopReturn [of E addr 0 None None s a e s1] show ?thesis
      by (auto simp: dial_def)
  next
    case (LoopDone a e)
    show ?thesis
    proof (cases e)
      case (Some err)
      with l LoopDone show ?thesis by (simp add: dial_def)
    next
      case None
      obtain r s2 where i: "agentInit E a s1 = (r, s2)" by (metis prod.exhaust)
      show ?thesis
      proof (cases r)
        case Panics
        with l LoopDone None i show ?thesis by (simp add: dial_def)
      next
        case (Returns eo)
        show ?thesis
        proof (cases eo)
          case (Some err)
          with l LoopDone None i Returns show ?thesis by (simp add: dial_def)
        next
          case none: None
          with i Returns agentInit_success [of E a s1 s2] obtain ag where "a = Some ag"
            by auto
          with l LoopDone None i Returns none show ?thesis by (simp add: dial_def)
        qed
      qed
    qed
  qed
qed

lemma dial_success_agent:
  assumes "dial E addr s = (Returns (agent, None), s')"
  shows "\<exists>k. agent = Some (Agent k) \<and> net_dial E addr k = None \<and> k < ndial s'"
proof -
  obtain x s1 where l: "dial_loop E addr 0 None None s = (x, s1)" by (metis prod.exhaust)
  show ?thesis
  proof (cases x)
    case (LoopReturn a e)
    with l assms dial_loop_LoopReturn [of E addr 0 None None s a e s1] show ?thesis
      by (auto simp: dial_def)
  next
    case (LoopDone a e)
    show ?thesis
    proof (cases e)
      case (Some err)
      with l LoopDone assms show ?thesis by (simp add: dial_def)
    next
      case None
      obtain r s2 where i: "agentInit E a s1 = (r, s2)" by (metis prod.exhaust)
      from assms l LoopDone None i have r: "r = Returns None" "agent = a" "s' = s2"
        by (auto simp: dial_def split: outcome.splits option.splits)
      from i r agentInit_success [of E a s1 s2] obtain ag where ag: "a = Some ag" by auto
      from dial_loop_LoopDone [of E addr 0 None None s a s1] l LoopDone None ag
      obtain k where "a = Some (Agent k)" "net_dial E addr k = None" "ndial s1 = Suc k"
        by auto
      moreover have "ndial s2 = ndial s1" using agentInit_frame(6) [OF i] .
      ultimately show ?thesis using r by auto
    qed
  qed
qed

lemma dial_nonpositive_retry: "cfgDialRetry E \<le> 0 \<Longrightarrow> dial E addr s = (Panics, s)"
  by (simp add: dial_def dial_loop_not_entered agentInit_nil)

lemma Atoi_Nil: "Atoi [] = None"
  by (simp add: Atoi_def)

lemma config_DialRetry_negative:
  "Atoi v = Some n \<Longrightarrow> n < 0 \<Longrightarrow> config_DialRetry v = Some n"
  by (cases "v = []") (simp_all add: config_DialRetry_def Atoi_Nil)

lemma config_DialRetry_nonzero: "config_DialRetry v = Some n \<Longrightarrow> n \<noteq> 0"
  by (auto simp: config_DialRetry_def split: if_splits option.splits)

text \<open>
  C10 (as amended). \<^verbatim>\<open>dial\<close> never returns a nil connection together with a nil error,
  whatever the retry count; when it returns a nil error the connection is the one a
  successful dial attempt opened. \<^verbatim>\<open>config\<close> replaces only the value 0 and lets a
  negative \<^verbatim>\<open>GW_DIAL_RETRY\<close> through; with a retry count below 1 the loop body never
  runs, and \<^verbatim>\<open>dial\<close> then calls \<^verbatim>\<open>agentInit\<close> on the nil connection, which panics: it
  does not return at all, and nothing has been dialled or written.
\<close>

theorem dial_never_nil_nil:
  "fst (dial E addr s) \<noteq> Returns (None, None)
   \<and> (dial E addr s = (Returns (agent, None), s') \<longrightarrow>
        (\<exists>k. agent = Some (Agent k) \<and> net_dial E addr k = None \<and> k < ndial s'))
   \<and> (Atoi v = Some n \<and> n < 0 \<longrightarrow> config_DialRetry v = Some n)
   \<and> (config_DialRetry v = Some n \<longrightarrow> n \<noteq> 0)
   \<and> (cfgDialRetry E \<le> 0 \<longrightarrow> dial E addr s = (Panics, s))"
  using dial_not_nil_nil [of E addr s] dial_success_agent [of E addr s agent s']
    config_DialRetry_negative [of v n] config_DialRetry_nonzero [of v n]
    dial_nonpositive_retry [of E addr s]
  by blast

lemma Atoi_minus_one: "Atoi ''-1'' = Some (- 1)"
  by (simp add: Atoi_def digit_val_def Let_def)

lemma dial_sample_env:
  "dial sample_env [65, 66] (start []) =
     (Returns (Some (Agent 0), None),
      \<lparr>rdr = NewReader, cin = [], pool = [],
        trace = [DialTimeout [65, 66], AgentSetWriteDeadline True None,
                 AgentWrite [3, 49, 50, 51] None, AgentWrite [] None,
                 AgentSetWriteDeadline False None],
        nwrite = 0, ndial = 1, nagent = 4\<rparr>)"
  by (simp add: dial_def dial_loop.simps net_DialTimeout_def agentInit_def
        agent_SetWriteDeadline_def agent_Write_def Peek_Buffered_def make_addrBuf_eq
        sample_env_def start_def NewReader_def Let_def)

theorem dial_never_nil_nil_witness:
  "Atoi ''-1'' = Some (- 1) \<and> config_DialRetry ''-1'' = Some (- 1)
   \<and> cfgDialRetry (sample_env\<lparr>cfgDialRetry := - 1\<rparr>) \<le> 0
   \<and> dial (sample_env\<lparr>cfgDialRetry := - 1\<rparr>) [65, 66] (start []) = (Panics, start [])
   \<and> fst (dial sample_env [65, 66] (start [])) = Returns (Some (Agent 0), None)
   \<and> net_dial sample_env [65, 66] 0 = None"
proof -
  let ?E = "sample_env\<lparr>cfgDialRetry := - 1\<rparr>"
  note t1 = dial_never_nil_nil [of ?E "[65, 66]" "start []" None "start []" "''-1''" "- 1"]
  note t2 = dial_never_nil_nil [of sample_env "[65, 66]" "start []" "Some (Agent 0)"
      "snd (dial sample_env [65, 66] (start []))" "''-1''" "- 1"]
  have r: "cfgDialRetry ?E \<le> 0" by simp
  have c: "config_DialRetry ''-1'' = Some (- 1)"
    using t1 Atoi_minus_one by simp
  have p: "dial ?E [65, 66] (start []) = (Panics, start [])"
    using t1 r by blast
  have d: "fst (dial sample_env [65, 66] (start [])) = Returns (Some (Agent 0), None)"
    by (simp add: dial_sample_env)
  then have "dial sample_env [65, 66] (start []) =
      (Returns (Some (Agent 0), None), snd (dial sample_env [65, 66] (start [])))"
    by (metis prod.collapse)
  with t2 have "net_dial sample_env [65, 66] 0 = None" by auto
  with Atoi_minus_one c r p d show ?thesis by blast
qed

text \<open>
  The claim as first stated fails at \<^verbatim>\<open>GW_DIAL_RETRY=-1\<close>: \<^verbatim>\<open>dial\<close> does not return a nil
  connection with a nil error there, it panics.
\<close>

theorem dial_negative_retry_panics:
  "config_DialRetry ''-1'' = Some (- 1)
   \<and> fst (dial (sample_env\<lparr>cfgDialRetry := - 1\<rparr>) [65, 66] (start [])) = Panics"
  by (simp add: config_DialRetry_def Atoi_minus_one dial_def dial_loop_not_entered agentInit_nil)





section \<open>Handshake: what it writes\<close>

lemma ReadByte_Inr:
  "ReadByte b c = (Inr x, b', c') \<Longrightarrow> lastByte b' = Some x \<and> 0 < rpos b'"
proof (induction b c rule: ReadByte.induct)
  case (1 b cin)
  show ?case
  proof (cases "buffered b")
    case (Cons y ys)
    with "1.prems" show ?thesis by (subst (asm) ReadByte.simps) auto
  next
    case Nil
    show ?thesis
    proof (cases "rerr b")
      case (Some err)
      with "1.prems" Nil show ?thesis by (subst (asm) ReadByte.simps) simp
    next
      case None
      obtain b1 c1 where f: "fill b cin = (b1, c1)" by (metis prod.exhaust)
      with "1.prems" Nil None have "ReadByte b1 c1 = (Inr x, b', c')"
        by (subst (asm) ReadByte.simps) simp
      from "1.IH" [OF Nil None f [symmetric] this] show ?thesis .
    qed
  qed
qed

lemma UnreadByte_after_ReadByte:
  assumes "ReadByte b c = (Inr x, b', c')"
  shows "UnreadByte b' =
         (None, b'\<lparr>buffered := x # buffered b', rpos := rpos b' - 1, lastByte := None\<rparr>)"
  using ReadByte_Inr [OF assms] by (simp add: UnreadByte_def)

lemma handshakeBinary_trace:
  assumes "handshakeBinary E s = (r, s1)"
  shows "pool s1 = pool s \<and> ndial s1 = ndial s \<and> nagent s1 = nagent s \<and>
         (case r of
            Inl err \<Rightarrow>
              (\<exists>tok. (tok = codeBadReq \<or> tok = codeBadAddr) \<and>
                 trace s1 = trace s @ [ClientWrite tok (client_write E (nwrite s))])
          | Inr addr \<Rightarrow> trace s1 = trace s \<and> nwrite s1 = nwrite s)"
  using assms
  by (auto simp: handshakeBinary_def conn_Write_def Let_def
        split: prod.splits sum.splits option.splits)

lemma handshakeText_trace:
  assumes "handshakeText E s = (r, s1)"
  shows "pool s1 = pool s \<and> ndial s1 = ndial s \<and> nagent s1 = nagent s \<and>
         (case r of
            Inl err \<Rightarrow>
              (\<exists>tok. (tok = codeBadReq \<or> tok = codeBadAddr) \<and>
                 trace s1 = trace s @ [ClientWrite tok (client_write E (nwrite s))])
          | Inr addr \<Rightarrow> trace s1 = trace s \<and> nwrite s1 = nwrite s)"
  using assms
  by (auto simp: handshakeText_def conn_Write_def Let_def
        split: prod.splits sum.splits option.splits)

lemma handshake_trace:
  assumes "handshake E s = (r, s1)"
  shows "pool s1 = pool s \<and> ndial s1 = ndial s \<and> nagent s1 = nagent s \<and>
         (case r of
            Inl err \<Rightarrow>
              (\<exists>tok. (tok = codeBadReq \<or> tok = codeBadAddr) \<and>
                 trace s1 = trace s @ [ClientWrite tok (client_write E (nwrite s))])
          | Inr addr \<Rightarrow> trace s1 = trace s \<and> nwrite s1 = nwrite s)"
proof -
  obtain x b c where rb: "ReadByte (rdr s) (cin s) = (x, b, c)" by (metis prod.exhaust)
  show ?thesis
  proof (cases x)
    case (Inl err)
    with assms rb show ?thesis by (auto simp: handshake_def conn_Write_def Let_def)
  next
    case (Inr firstByte)
    show ?thesis
    proof (cases "firstByte = 0")
      case True
      with assms rb Inr have "handshakeBinary E (s\<lparr>rdr := b, cin := c\<rparr>) = (r, s1)"
        by (simp add: handshake_def)
      from handshakeBinary_trace [OF this] show ?thesis by (cases r) simp_all
    next
      case False
      from rb Inr have "ReadByte (rdr s) (cin s) = (Inr firstByte, b, c)" by simp
      note u = UnreadByte_after_ReadByte [OF this]
      with assms rb Inr False obtain b' where
        "handshakeText E (s\<lparr>rdr := b', cin := c\<rparr>) = (r, s1)"
        by (simp add: handshake_def)
      from handshakeText_trace [OF this] show ?thesis by (cases r) simp_all
    qed
  qed
qed

section \<open>Dial: what it writes\<close>

lemma dial_loop_trace:
  "dial_loop E addr i agent err s = (x, s') \<Longrightarrow>
     pool s' = pool s \<and> rdr s' = rdr s \<and> cin s' = cin s \<and>
     (\<exists>k. trace s' = trace s @ replicate k (DialTimeout addr) @
             (case x of
                LoopReturn a e \<Rightarrow> [ClientWrite codeDialErr (client_write E (nwrite s))]
              | LoopDone a e \<Rightarrow> []) \<and>
           nwrite s' = (case x of LoopReturn a e \<Rightarrow> nwrite s + 1 | LoopDone a e \<Rightarrow> nwrite s))"
proof (induction E addr i agent err s rule: dial_loop.induct)
  case (1 E addr i agent err s)
  show ?case
  proof (cases "i < cfgDialRetry E")
    case False
    with "1.prems" have "x = LoopDone agent err" "s' = s"
      by (simp_all add: dial_loop_not_entered)
    then show ?thesis by (auto intro: exI [of _ 0])
  next
    case True
    let ?s1 = "s\<lparr>trace := trace s @ [DialTimeout addr], ndial := ndial s + 1\<rparr>"
    obtain ag er where d: "net_DialTimeout E addr s = ((ag, er), ?s1)"
      by (simp add: net_DialTimeout_def Let_def)
    show ?thesis
    proof (cases er)
      case None
      with "1.prems" True d have "x = LoopDone ag None" "s' = ?s1"
        by (subst (asm) dial_loop.simps, simp)+
      then show ?thesis by (auto intro: exI [of _ 1])
    next
      case (Some e)
      show ?thesis
      proof (cases "is_timeout e")
        case False
        with "1.prems" True d Some
        have "x = LoopReturn None (Some e)" "s' = snd (conn_Write E codeDialErr ?s1)"
          by (subst (asm) dial_loop.simps, simp)+
        then show ?thesis by (auto simp: conn_Write_def Let_def intro: exI [of _ 1])
      next
        case tmo: True
        with "1.prems" True d Some
        have r: "dial_loop E addr (i + 1) ag er ?s1 = (x, s')"
          by (subst (asm) dial_loop.simps) simp
        from "1.IH" [OF True d [symmetric] refl Some tmo r]
        obtain k where k: "pool s' = pool s" "rdr s' = rdr s" "cin s' = cin s"
          "trace s' = trace ?s1 @ replicate k (DialTimeout addr) @
             (case x of
                LoopReturn a e \<Rightarrow> [ClientWrite codeDialErr (client_write E (nwrite ?s1))]
              | LoopDone a e \<Rightarrow> [])"
          "nwrite s' = (case x of LoopReturn a e \<Rightarrow> nwrite ?s1 + 1 | LoopDone a e \<Rightarrow> nwrite ?s1)"
          by auto
        have "trace s' = trace s @ replicate (Suc k) (DialTimeout addr) @
             (case x of
                LoopReturn a e \<Rightarrow> [ClientWrite codeDialErr (client_write E (nwrite s))]
              | LoopDone a e \<Rightarrow> [])"
          using k(4) by (cases x) simp_all
        moreover have "nwrite s' =
            (case x of LoopReturn a e \<Rightarrow> nwrite s + 1 | LoopDone a e \<Rightarrow> nwrite s)"
          using k(5) by (cases x) simp_all
        ultimately show ?thesis using k(1-3) by blast
      qed
    qed
  qed
qed

lemma agentInit_Panics:
  "agentInit E agent s = (Panics, s') \<Longrightarrow> agent = None \<or> make_addrBuf (RemoteAddr E) = None"
  by (auto simp: agentInit_def agent_SetWriteDeadline_def agent_Write_def Peek_Buffered_def
        Let_def split: option.splits)

lemma proj_singleton:
  "client_events [ClientWrite p e] = [ClientWrite p e]" "client_events [ClientClose] = [ClientClose]"
  "client_events [AgentClose] = []" "client_events [PoolPut] = []" "client_events [LogPanic] = []"
  "client_events [Go_safeCopy d c] = []" "client_events [Io_Copy d c] = []"
  "relay_events [ClientWrite p e] = []" "relay_events [ClientClose] = []"
  "relay_events [AgentClose] = []" "relay_events [PoolPut] = []" "relay_events [LogPanic] = []"
  "relay_events [Go_safeCopy d c] = [Go_safeCopy d c]" "relay_events [Io_Copy d c] = [Io_Copy d c]"
  "pool_puts [ClientWrite p e] = 0" "pool_puts [ClientClose] = 0"
  "pool_puts [AgentClose] = 0" "pool_puts [PoolPut] = 1" "pool_puts [LogPanic] = 0"
  "pool_puts [Go_safeCopy d c] = 0" "pool_puts [Io_Copy d c] = 0"
  "log_events [ClientWrite p e] = []" "log_events [ClientClose] = []"
  "log_events [AgentClose] = []" "log_events [PoolPut] = []" "log_events [LogPanic] = [LogPanic]"
  "log_events [Go_safeCopy d c] = []" "log_events [Io_Copy d c] = []"
  by (simp_all add: proj_defs)

lemma proj_Cons2:
  "client_events (ev # ev' # t) = client_events [ev] @ client_events (ev' # t)"
  "relay_events (ev # ev' # t) = relay_events [ev] @ relay_events (ev' # t)"
  "pool_puts (ev # ev' # t) = pool_puts [ev] + pool_puts (ev' # t)"
  "log_events (ev # ev' # t) = log_events [ev] @ log_events (ev' # t)"
  by (simp_all add: proj_defs)

text \<open>
  What \<^verbatim>\<open>dial\<close> adds to the trace, seen from the client: nothing when it returns a
  connection or panics, one error token when it returns an error.
\<close>

lemma dial_trace:
  assumes "dial E addr s = (r, s')"
  shows "pool s' = pool s \<and> cin s' = cin s \<and> buffered (rdr s') = buffered (rdr s) \<and>
    (\<exists>evs. trace s' = trace s @ evs \<and> relay_events evs = [] \<and> pool_puts evs = 0 \<and>
       log_events evs = [] \<and>
       (case r of
          Panics \<Rightarrow>
            client_events evs = [] \<and>
            (cfgDialRetry E < 1 \<or> make_addrBuf (RemoteAddr E) = None)
        | Returns (a, Some e) \<Rightarrow>
            (\<exists>tok. (tok = codeDialErr \<or> tok = codeDialTimeout) \<and>
               client_events evs = [ClientWrite tok (client_write E (nwrite s))])
        | Returns (a, None) \<Rightarrow> a \<noteq> None \<and> client_events evs = [] \<and> nwrite s' = nwrite s))"
proof -
  obtain x s1 where l: "dial_loop E addr 0 None None s = (x, s1)" by (metis prod.exhaust)
  from dial_loop_trace [OF l] obtain k where
    f1: "pool s1 = pool s" "rdr s1 = rdr s" "cin s1 = cin s" and
    t1: "trace s1 = trace s @ replicate k (DialTimeout addr) @
             (case x of
                LoopReturn a e \<Rightarrow> [ClientWrite codeDialErr (client_write E (nwrite s))]
              | LoopDone a e \<Rightarrow> [])" and
    w1: "nwrite s1 = (case x of LoopReturn a e \<Rightarrow> nwrite s + 1 | LoopDone a e \<Rightarrow> nwrite s)"
    by blast
  note pj = proj_append proj_replicate_DialTimeout proj_Cons2 proj_singleton proj_Nil
  show ?thesis
  proof (cases x)
    case (LoopReturn a e)
    with dial_loop_LoopReturn [of E addr 0 None None s a e s1] l
    obtain err where e: "e = Some err" by auto
    have "r = Returns (a, Some err)" "s' = s1"
      using assms l LoopReturn e by (simp_all add: dial_def)
    then show ?thesis using f1 t1 LoopReturn by (auto simp: pj)
  next
    case (LoopDone a e)
    show ?thesis
    proof (cases e)
      case (Some err)
      have "r = Returns (None, Some err)" "s' = snd (conn_Write E codeDialTimeout s1)"
        using assms l LoopDone Some by (simp_all add: dial_def)
      then show ?thesis using f1 t1 w1 LoopDone
        by (auto simp: conn_Write_def Let_def pj)
    next
      case None
      obtain r2 s2 where i: "agentInit E a s1 = (r2, s2)" by (metis prod.exhaust)
      from agentInit_frame [OF i] obtain aevs where
        t2: "trace s2 = trace s1 @ aevs" "\<forall>ev \<in> set aevs. agent_event ev" and
        f2: "pool s2 = pool s1" "cin s2 = cin s1" "buffered (rdr s2) = buffered (rdr s1)"
          "nwrite s2 = nwrite s1"
        by blast
      note pa = proj_agent_events [OF t2(2)]
      show ?thesis
      proof (cases r2)
        case Panics
        have rs: "r = Panics" "s' = s2"
          using assms l LoopDone None i Panics by (simp_all add: dial_def)
        from i Panics have "agentInit E a s1 = (Panics, s2)" by simp
        from agentInit_Panics [OF this]
        have "a = None \<or> make_addrBuf (RemoteAddr E) = None" .
        moreover have "cfgDialRetry E < 1" if "a = None"
          using dial_loop_LoopDone [of E addr 0 None None s a s1] l LoopDone None that by auto
        ultimately have "cfgDialRetry E < 1 \<or> make_addrBuf (RemoteAddr E) = None" by auto
        then show ?thesis using rs f1 f2 t1 t2 LoopDone pa by (auto simp: pj)
      next
        case (Returns eo)
        show ?thesis
        proof (cases eo)
          case (Some err)
          have rs: "r = Returns (None, Some err)"
            "s' = snd (conn_Write E codeDialErr (agent_Close s2))"
            using assms l LoopDone None i Returns Some by (simp_all add: dial_def)
          then show ?thesis using f1 f2 t1 t2 w1 LoopDone pa
            by (auto simp: conn_Write_def agent_Close_def Let_def pj)
        next
          case none: None
          have rs: "r = Returns (a, None)" "s' = s2"
            using assms l LoopDone None i Returns none by (simp_all add: dial_def)
          from agentInit_success [of E a s1 s2] i Returns none have "a \<noteq> None" by auto
          then show ?thesis using rs f1 f2 t1 t2 w1 LoopDone pa by (auto simp: pj)
        qed
      qed
    qed
  qed
qed

section \<open>The handler: every path\<close>

lemma Reset_const: "Reset attached b = Reset attached NewReader"
  by (simp add: Reset_def)

lemma borrow_NewReader: "fst (borrow pick p) = NewReader"
  by (simp add: borrow_def Reset_def NewReader_def split: prod.splits option.splits)

lemma borrow_pool: "snd (borrow pick p) = snd (pool_Get pick p)"
  by (simp add: borrow_def split: prod.splits option.splits)

text \<open>
  The three ways the body of \<^verbatim>\<open>handle\<close> ends: a handled failure (one error token, reader
  not yet released), a panic (no token), or a bootstrapped connection (reader released,
  then the \<^verbatim>\<open>200\<close> token, then the relay if that write succeeded).
\<close>

lemma handle_body_cases:
  assumes "handle_body E s = ((out, rel, ag), s')"
  shows "\<exists>evs. trace s' = trace s @ evs \<and> log_events evs = [] \<and>
    ((out = Returns () \<and> \<not> rel \<and> ag = None \<and> pool s' = pool s \<and>
      (\<exists>tok. (tok = codeBadReq \<or> tok = codeBadAddr \<or> tok = codeDialErr \<or> tok = codeDialTimeout) \<and>
         client_events evs = [ClientWrite tok (client_write E (nwrite s))]) \<and>
      relay_events evs = [] \<and> pool_puts evs = 0)
     \<or> (out = Panics \<and> \<not> rel \<and> ag = None \<and> pool s' = pool s \<and>
        client_events evs = [] \<and> relay_events evs = [] \<and> pool_puts evs = 0 \<and>
        (cfgDialRetry E < 1 \<or> make_addrBuf (RemoteAddr E) = None))
     \<or> (out = Returns () \<and> rel \<and> ag \<noteq> None \<and> pool s' = pool s @ [Reset False NewReader] \<and>
        client_events evs = [ClientWrite codeOK (client_write E (nwrite s))] \<and>
        relay_events evs =
          (if client_write E (nwrite s) = None
           then [Go_safeCopy Backend Client, Io_Copy Client Backend] else []) \<and>
        pool_puts evs = 1))"
proof -
  note pj = proj_append proj_Cons2 proj_singleton proj_Nil
  obtain h s1 where hs: "handshake E s = (h, s1)" by (metis prod.exhaust)
  note ht = handshake_trace [OF hs]
  show ?thesis
  proof (cases h)
    case (Inl err)
    with ht obtain tok where
      tok: "tok = codeBadReq \<or> tok = codeBadAddr"
        "trace s1 = trace s @ [ClientWrite tok (client_write E (nwrite s))]"
      by auto
    have "out = Returns ()" "\<not> rel" "ag = None" "s' = s1"
      using assms hs Inl by (simp_all add: handle_body_def)
    then show ?thesis using tok ht by (auto simp: pj)
  next
    case (Inr addr)
    with ht have t1: "trace s1 = trace s" "nwrite s1 = nwrite s" "pool s1 = pool s" by auto
    obtain r s2 where d: "dial E addr s1 = (r, s2)" by (metis prod.exhaust)
    from dial_trace [OF d] obtain devs where
      f2: "pool s2 = pool s1" and
      t2: "trace s2 = trace s1 @ devs" "relay_events devs = []" "pool_puts devs = 0"
        "log_events devs = []" and
      c2: "case r of
          Panics \<Rightarrow>
            client_events devs = [] \<and>
            (cfgDialRetry E < 1 \<or> make_addrBuf (RemoteAddr E) = None)
        | Returns (a, Some e) \<Rightarrow>
            (\<exists>tok. (tok = codeDialErr \<or> tok = codeDialTimeout) \<and>
               client_events devs = [ClientWrite tok (client_write E (nwrite s1))])
        | Returns (a, None) \<Rightarrow> a \<noteq> None \<and> client_events devs = [] \<and> nwrite s2 = nwrite s1"
      by blast
    show ?thesis
    proof (cases r)
      case Panics
      have "out = Panics" "\<not> rel" "ag = None" "s' = s2"
        using assms hs Inr d Panics by (simp_all add: handle_body_def)
      then show ?thesis using t1 f2 t2 c2 Panics by auto
    next
      case (Returns ae)
      obtain a eo where ae: "ae = (a, eo)" by (cases ae)
      show ?thesis
      proof (cases eo)
        case (Some e)
        have "out = Returns ()" "\<not> rel" "ag = None" "s' = s2"
          using assms hs Inr d Returns ae Some
          by (auto simp: handle_body_def split: option.splits)
        then show ?thesis using t1 f2 t2 c2 Returns ae Some by auto
      next
        case None
        with c2 Returns ae obtain a' where a': "a = Some a'"
          and c: "client_events devs = []" "nwrite s2 = nwrite s1"
          by auto
        let ?e = "client_write E (nwrite s)"
        define s3 where "s3 = snd (conn_Write E codeOK (release s2))"
        have w: "conn_Write E codeOK (release s2) = (?e, s3)"
          unfolding s3_def using c t1 by (simp add: conn_Write_def release_def Let_def)
        have t3: "trace s3 = trace s @ devs @ [PoolPut, ClientWrite codeOK ?e]"
          "pool s3 = pool s @ [Reset False NewReader]"
          unfolding s3_def using t1 t2 f2 c
          by (simp_all add: conn_Write_def release_def Let_def Reset_def)
        show ?thesis
        proof (cases ?e)
          case (Some err)
          have "out = Returns ()" "rel" "ag = Some a'" "s' = s3"
            using assms hs Inr d Returns ae None a' w Some
            by (simp_all add: handle_body_def)
          then show ?thesis using t3 t2 c Some by (auto simp: pj)
        next
          case none: None
          have "out = Returns ()" "rel" "ag = Some a'"
            "s' = s3\<lparr>trace := trace s3 @ [Go_safeCopy Backend Client, Io_Copy Client Backend]\<rparr>"
            using assms hs Inr d Returns ae None a' w none
            by (simp_all add: handle_body_def)
          then show ?thesis using t3 t2 c none by (auto simp: pj)
        qed
      qed
    qed
  qed
qed

text \<open>
  Every run of \<^verbatim>\<open>handle\<close>: the reader goes back to the pool exactly once and reset, the
  client socket is closed exactly once and last, and before that the client got exactly
  one token, or none when the run panicked.
\<close>

lemma handle_cases:
  "\<exists>evs. trace (handle E pick s) = trace s @ evs \<and>
     pool (handle E pick s) = snd (pool_Get pick (pool s)) @ [Reset False NewReader] \<and>
     pool_puts evs = 1 \<and>
     ((log_events evs = [] \<and>
       (\<exists>tok. (tok = codeBadReq \<or> tok = codeBadAddr \<or> tok = codeDialErr \<or> tok = codeDialTimeout) \<and>
          client_events evs = [ClientWrite tok (client_write E (nwrite s)), ClientClose]) \<and>
       relay_events evs = [])
      \<or> (log_events evs = [LogPanic] \<and> client_events evs = [ClientClose] \<and>
         relay_events evs = [] \<and>
         (cfgDialRetry E < 1 \<or> make_addrBuf (RemoteAddr E) = None))
      \<or> (log_events evs = [] \<and>
         client_events evs = [ClientWrite codeOK (client_write E (nwrite s)), ClientClose] \<and>
         relay_events evs =
           (if client_write E (nwrite s) = None
            then [Go_safeCopy Backend Client, Io_Copy Client Backend] else [])))"
proof -
  note pj = proj_append proj_Cons2 proj_singleton proj_Nil
  let ?p = "snd (pool_Get pick (pool s))"
  let ?s0 = "s\<lparr>rdr := NewReader, pool := ?p\<rparr>"
  have b: "borrow pick (pool s) = (NewReader, ?p)"
    using borrow_NewReader [of pick "pool s"] borrow_pool [of pick "pool s"]
    by (metis prod.collapse)
  obtain out rel ag s1 where hb: "handle_body E ?s0 = ((out, rel, ag), s1)"
    by (metis prod.exhaust)
  from handle_body_cases [OF hb] obtain evs where
    t: "trace s1 = trace s @ evs" "log_events evs = []" and
    c: "(out = Returns () \<and> \<not> rel \<and> ag = None \<and> pool s1 = ?p \<and>
      (\<exists>tok. (tok = codeBadReq \<or> tok = codeBadAddr \<or> tok = codeDialErr \<or> tok = codeDialTimeout) \<and>
         client_events evs = [ClientWrite tok (client_write E (nwrite s))]) \<and>
      relay_events evs = [] \<and> pool_puts evs = 0)
     \<or> (out = Panics \<and> \<not> rel \<and> ag = None \<and> pool s1 = ?p \<and>
        client_events evs = [] \<and> relay_events evs = [] \<and> pool_puts evs = 0 \<and>
        (cfgDialRetry E < 1 \<or> make_addrBuf (RemoteAddr E) = None))
     \<or> (out = Returns () \<and> rel \<and> ag \<noteq> None \<and> pool s1 = ?p @ [Reset False NewReader] \<and>
        client_events evs = [ClientWrite codeOK (client_write E (nwrite s))] \<and>
        relay_events evs =
          (if client_write E (nwrite s) = None
           then [Go_safeCopy Backend Client, Io_Copy Client Backend] else []) \<and>
        pool_puts evs = 1)"
    by auto
  from c consider
    (fail) "out = Returns ()" "\<not> rel" "ag = None" "pool s1 = ?p" "relay_events evs = []"
      "pool_puts evs = 0"
      "\<exists>tok. (tok = codeBadReq \<or> tok = codeBadAddr \<or> tok = codeDialErr \<or> tok = codeDialTimeout) \<and>
         client_events evs = [ClientWrite tok (client_write E (nwrite s))]"
    | (panic) "out = Panics" "\<not> rel" "ag = None" "pool s1 = ?p" "client_events evs = []"
      "relay_events evs = []" "pool_puts evs = 0"
      "cfgDialRetry E < 1 \<or> make_addrBuf (RemoteAddr E) = None"
    | (ok) "out = Returns ()" "rel" "ag \<noteq> None" "pool s1 = ?p @ [Reset False NewReader]"
      "client_events evs = [ClientWrite codeOK (client_write E (nwrite s))]"
      "relay_events evs =
          (if client_write E (nwrite s) = None
           then [Go_safeCopy Backend Client, Io_Copy Client Backend] else [])"
      "pool_puts evs = 1"
    by (elim disjE; simp)
  then show ?thesis
  proof cases
    case fail
    have h: "handle E pick s = (release s1)\<lparr>trace := trace (release s1) @ [ClientClose]\<rparr>"
      using fail(1-3) by (simp add: handle_def b hb Let_def)
    have "trace (handle E pick s) = trace s @ (evs @ [PoolPut, ClientClose])"
      "pool (handle E pick s) = ?p @ [Reset False NewReader]"
      unfolding h using t fail(4) by (simp_all add: release_def Let_def Reset_def)
    moreover have "pool_puts (evs @ [PoolPut, ClientClose]) = 1"
      "log_events (evs @ [PoolPut, ClientClose]) = []"
      "relay_events (evs @ [PoolPut, ClientClose]) = []"
      using fail t by (simp_all add: pj)
    moreover from fail(7) have
      "\<exists>tok. (tok = codeBadReq \<or> tok = codeBadAddr \<or> tok = codeDialErr \<or> tok = codeDialTimeout) \<and>
         client_events (evs @ [PoolPut, ClientClose]) =
           [ClientWrite tok (client_write E (nwrite s)), ClientClose]"
      by (auto simp: pj)
    ultimately show ?thesis by blast
  next
    case panic
    have h: "handle E pick s =
        (release s1)\<lparr>trace := trace (release s1) @ [ClientClose, LogPanic]\<rparr>"
      using panic(1-3) by (simp add: handle_def b hb Let_def)
    have "trace (handle E pick s) = trace s @ (evs @ [PoolPut, ClientClose, LogPanic])"
      "pool (handle E pick s) = ?p @ [Reset False NewReader]"
      unfolding h using t panic(4) by (simp_all add: release_def Let_def Reset_def)
    moreover have "pool_puts (evs @ [PoolPut, ClientClose, LogPanic]) = 1"
      "log_events (evs @ [PoolPut, ClientClose, LogPanic]) = [LogPanic]"
      "relay_events (evs @ [PoolPut, ClientClose, LogPanic]) = []"
      "client_events (evs @ [PoolPut, ClientClose, LogPanic]) = [ClientClose]"
      using panic t by (simp_all add: pj)
    ultimately show ?thesis using panic(8) by blast
  next
    case ok
    from ok(3) obtain a where a: "ag = Some a" by auto
    have h: "handle E pick s = s1\<lparr>trace := trace s1 @ [AgentClose, ClientClose]\<rparr>"
      using ok(1,2) a by (simp add: handle_def b hb Let_def agent_Close_def)
    have "trace (handle E pick s) = trace s @ (evs @ [AgentClose, ClientClose])"
      "pool (handle E pick s) = ?p @ [Reset False NewReader]"
      unfolding h using t ok(4) by simp_all
    moreover have "pool_puts (evs @ [AgentClose, ClientClose]) = 1"
      "log_events (evs @ [AgentClose, ClientClose]) = []"
      "relay_events (evs @ [AgentClose, ClientClose]) =
          (if client_write E (nwrite s) = None
           then [Go_safeCopy Backend Client, Io_Copy Client Backend] else [])"
      "client_events (evs @ [AgentClose, ClientClose]) =
          [ClientWrite codeOK (client_write E (nwrite s)), ClientClose]"
      using ok t by (simp_all add: pj)
    ultimately show ?thesis by blast
  qed
qed

lemma make_addrBuf_None_iff:
  "make_addrBuf addr = None \<longleftrightarrow> length addr mod 256 = 255"
proof
  assume "make_addrBuf addr = None"
  then have "Suc (length addr) mod 256 = 0"
    by (simp add: make_addrBuf_eq split: if_splits)
  then show "length addr mod 256 = 255"
    by (simp add: mod_Suc split: if_splits)
qed (rule make_addrBuf_panic)

lemma borrow_eq: "borrow pick p = (NewReader, snd (pool_Get pick p))"
  using borrow_NewReader [of pick p] borrow_pool [of pick p] by (metis prod.collapse)

lemma handle_handshake_fails:
  assumes "handshake E (s\<lparr>rdr := NewReader, pool := snd (pool_Get pick (pool s))\<rparr>) = (Inl err, s1)"
  shows "trace (handle E pick s) = trace s1 @ [PoolPut, ClientClose]"
  using assms by (simp add: handle_def borrow_eq handle_body_def release_def Let_def)

lemma handle_first_read_fails:
  assumes "ReadByte NewReader (cin s) = (Inl err, b, c)"
  shows "trace (handle E pick s) =
         trace s @ [ClientWrite codeBadReq (client_write E (nwrite s)), PoolPut, ClientClose]"
proof -
  let ?s0 = "s\<lparr>rdr := NewReader, pool := snd (pool_Get pick (pool s))\<rparr>"
  have "handshake E ?s0 = (Inl err, snd (conn_Write E codeBadReq (?s0\<lparr>rdr := b, cin := c\<rparr>)))"
    using assms by (simp add: handshake_def)
  from handle_handshake_fails [OF this] show ?thesis
    by (simp add: conn_Write_def Let_def)
qed

lemma fill_Nil: "fill b [] = (b\<lparr>rpos := 0, rerr := Some EOF\<rparr>, [])"
  by (simp add: fill_def maxConsecutiveEmptyReads_def eval_nat_numeral)

lemma ReadByte_NewReader_Nil:
  "ReadByte NewReader [] = (Inl EOF, NewReader, [])"
  apply (subst ReadByte.simps)
  apply (simp add: NewReader_def fill_Nil)
  apply (subst ReadByte.simps)
  apply simp
  done

lemma codes_distinct:
  "codeBadReq \<noteq> codeOK" "codeBadAddr \<noteq> codeOK" "codeDialErr \<noteq> codeOK" "codeDialTimeout \<noteq> codeOK"
  by (simp_all add: codeOK_def codeBadReq_def codeBadAddr_def codeDialErr_def codeDialTimeout_def)

text \<open>
  C3 (as amended). Every run of the connection handler that does not panic writes
  exactly one status token to the client socket and then closes it; a run that panics
  writes none before the close; no run writes two. A failure before any byte has been
  read is no exception: when the first read fails the handler writes \<^verbatim>\<open>400\<close> and then
  closes. A run cannot panic when the retry count is at least 1 and the length of the
  client's remote address is not 255 modulo 256.
\<close>

theorem one_token_then_close:
  "\<exists>evs. trace (handle E pick s) = trace s @ evs
     \<and> ((\<exists>tok. (tok = codeOK \<or> tok = codeBadReq \<or> tok = codeBadAddr \<or> tok = codeDialErr \<or>
                tok = codeDialTimeout) \<and>
              client_events evs = [ClientWrite tok (client_write E (nwrite s)), ClientClose] \<and>
              log_events evs = [])
         \<or> (client_events evs = [ClientClose] \<and> log_events evs = [LogPanic]))
     \<and> (1 \<le> cfgDialRetry E \<and> length (RemoteAddr E) mod 256 \<noteq> 255 \<longrightarrow> log_events evs = [])
     \<and> (\<forall>err b c. ReadByte NewReader (cin s) = (Inl err, b, c) \<longrightarrow>
           evs = [ClientWrite codeBadReq (client_write E (nwrite s)), PoolPut, ClientClose])"
proof -
  from handle_cases [of E pick s] obtain evs where
    t: "trace (handle E pick s) = trace s @ evs" and
    c: "(log_events evs = [] \<and>
       (\<exists>tok. (tok = codeBadReq \<or> tok = codeBadAddr \<or> tok = codeDialErr \<or> tok = codeDialTimeout) \<and>
          client_events evs = [ClientWrite tok (client_write E (nwrite s)), ClientClose]) \<and>
       relay_events evs = [])
      \<or> (log_events evs = [LogPanic] \<and> client_events evs = [ClientClose] \<and>
         relay_events evs = [] \<and>
         (cfgDialRetry E < 1 \<or> make_addrBuf (RemoteAddr E) = None))
      \<or> (log_events evs = [] \<and>
         client_events evs = [ClientWrite codeOK (client_write E (nwrite s)), ClientClose] \<and>
         relay_events evs =
           (if client_write E (nwrite s) = None
            then [Go_safeCopy Backend Client, Io_Copy Client Backend] else []))"
    by blast
  have 1: "(\<exists>tok. (tok = codeOK \<or> tok = codeBadReq \<or> tok = codeBadAddr \<or> tok = codeDialErr \<or>
                tok = codeDialTimeout) \<and>
              client_events evs = [ClientWrite tok (client_write E (nwrite s)), ClientClose] \<and>
              log_events evs = [])
         \<or> (client_events evs = [ClientClose] \<and> log_events evs = [LogPanic])"
    using c by (elim disjE; auto)
  have 2: "log_events evs = []"
    if "1 \<le> cfgDialRetry E \<and> length (RemoteAddr E) mod 256 \<noteq> 255"
    using c that by (elim disjE; simp add: make_addrBuf_None_iff)
  have 3: "evs = [ClientWrite codeBadReq (client_write E (nwrite s)), PoolPut, ClientClose]"
    if "ReadByte NewReader (cin s) = (Inl err, b, c)" for err b c
    using handle_first_read_fails [OF that, of E pick] t by simp
  from t 1 2 3 show ?thesis by blast
qed

theorem one_token_then_close_witness:
  "1 \<le> cfgDialRetry sample_env \<and> length (RemoteAddr sample_env) mod 256 \<noteq> 255
   \<and> ReadByte NewReader (cin (start [])) = (Inl EOF, NewReader, [])
   \<and> trace (handle sample_env None (start [])) = [ClientWrite codeBadReq None, PoolPut, ClientClose]
   \<and> log_events (trace (handle sample_env None (start []))) = []"
proof -
  have h1: "1 \<le> cfgDialRetry sample_env \<and> length (RemoteAddr sample_env) mod 256 \<noteq> 255"
    by (simp add: sample_env_def)
  have h2: "ReadByte NewReader (cin (start [])) = (Inl EOF, NewReader, [])"
    by (simp add: start_def ReadByte_NewReader_Nil)
  from one_token_then_close [of sample_env None "start []"] obtain evs where
    t: "trace (handle sample_env None (start [])) = trace (start []) @ evs" and
    l: "1 \<le> cfgDialRetry sample_env \<and> length (RemoteAddr sample_env) mod 256 \<noteq> 255
          \<longrightarrow> log_events evs = []" and
    r: "\<forall>err b c. ReadByte NewReader (cin (start [])) = (Inl err, b, c) \<longrightarrow>
           evs = [ClientWrite codeBadReq (client_write sample_env (nwrite (start []))), PoolPut,
                  ClientClose]"
    by blast
  from r h2 have "evs = [ClientWrite codeBadReq (client_write sample_env (nwrite (start []))),
      PoolPut, ClientClose]" by blast
  then have e: "evs = [ClientWrite codeBadReq None, PoolPut, ClientClose]"
    by (simp add: sample_env_def)
  from l h1 have "log_events evs = []" by blast
  with t e h1 h2 show ?thesis by (simp add: start_def)
qed

text \<open>
  The claim as first stated fails when the client closes before sending anything: no
  byte has been read, and the token \<^verbatim>\<open>400\<close> is written all the same.
\<close>

theorem token_written_before_any_byte:
  "cin (start []) = []
   \<and> tokens (trace (handle sample_env None (start []))) = [codeBadReq]"
  using handle_first_read_fails [of "start []" EOF NewReader "[]" sample_env None]
  by (simp add: start_def ReadByte_NewReader_Nil tokens_def)

text \<open>
  C4 (as amended). The relay runs only on a connection whose \<^verbatim>\<open>200\<close> token was written
  without error, and then it is always the same two tasks: the copy from the client to
  the backend is the one started in the background (\<^verbatim>\<open>go safeCopy(agent, conn)\<close>), and
  the copy from the backend to the client is the one run in the handler's own flow
  (\<^verbatim>\<open>io.Copy(conn, agent)\<close>).
\<close>

theorem relay_directions:
  "\<exists>evs. trace (handle E pick s) = trace s @ evs
     \<and> relay_events evs =
         (if client_events evs = [ClientWrite codeOK None, ClientClose]
          then [Go_safeCopy Backend Client, Io_Copy Client Backend] else [])"
proof -
  from handle_cases [of E pick s] obtain evs where
    t: "trace (handle E pick s) = trace s @ evs" and
    c: "(log_events evs = [] \<and>
       (\<exists>tok. (tok = codeBadReq \<or> tok = codeBadAddr \<or> tok = codeDialErr \<or> tok = codeDialTimeout) \<and>
          client_events evs = [ClientWrite tok (client_write E (nwrite s)), ClientClose]) \<and>
       relay_events evs = [])
      \<or> (log_events evs = [LogPanic] \<and> client_events evs = [ClientClose] \<and>
         relay_events evs = [] \<and>
         (cfgDialRetry E < 1 \<or> make_addrBuf (RemoteAddr E) = None))
      \<or> (log_events evs = [] \<and>
         client_events evs = [ClientWrite codeOK (client_write E (nwrite s)), ClientClose] \<and>
         relay_events evs =
           (if client_write E (nwrite s) = None
            then [Go_safeCopy Backend Client, Io_Copy Client Backend] else []))"
    by blast
  have "relay_events evs =
         (if client_events evs = [ClientWrite codeOK None, ClientClose]
          then [Go_safeCopy Backend Client, Io_Copy Client Backend] else [])"
    using c by (elim disjE; auto simp: codes_distinct codes_distinct [symmetric])
  with t show ?thesis by blast
qed

text \<open>
  The claim as first stated fails on any successful connection: the task started in
  the background copies to the backend from the client, not the other way round.
\<close>

theorem background_copy_is_client_to_backend:
  "relay_events (trace (handle sample_env None (start [([0, 2, 9, 9], None)])))
     = [Go_safeCopy Backend Client, Io_Copy Client Backend]
   \<and> Go_safeCopy Client Backend \<notin> set (trace (handle sample_env None (start [([0, 2, 9, 9], None)])))"
  by code_simp

section \<open>The reader pool\<close>

text \<open>
  Handshake and dial neither read nor change the pool: run from a state with another
  pool, they do the same and leave that pool in place.
\<close>

lemma handshake_pool:
  "handshake E (s\<lparr>pool := q\<rparr>) = apsnd (\<lambda>t. t\<lparr>pool := q\<rparr>) (handshake E s)"
  by (simp add: handshake_def handshakeBinary_def handshakeText_def conn_Write_def Let_def
        split: prod.splits sum.splits option.splits)

lemma agentInit_pool:
  "agentInit E agent (s\<lparr>pool := q\<rparr>) = apsnd (\<lambda>t. t\<lparr>pool := q\<rparr>) (agentInit E agent s)"
  by (simp add: agentInit_def agent_SetWriteDeadline_def agent_Write_def Peek_Buffered_def Let_def
        split: prod.splits option.splits)

lemma dial_loop_pool:
  "dial_loop E addr i agent err (s\<lparr>pool := q\<rparr>) =
     apsnd (\<lambda>t. t\<lparr>pool := q\<rparr>) (dial_loop E addr i agent err s)"
proof (induction E addr i agent err s rule: dial_loop.induct)
  case (1 E addr i agent err s)
  show ?case
  proof (cases "i < cfgDialRetry E")
    case False
    then show ?thesis by (simp add: dial_loop_not_entered)
  next
    case True
    let ?s1 = "s\<lparr>trace := trace s @ [DialTimeout addr], ndial := ndial s + 1\<rparr>"
    let ?e = "net_dial E addr (ndial s)"
    let ?a = "if ?e = None then Some (Agent (ndial s)) else None"
    have d: "net_DialTimeout E addr s = ((?a, ?e), ?s1)"
      by (simp add: net_DialTimeout_def Let_def)
    have dq: "net_DialTimeout E addr (s\<lparr>pool := q\<rparr>) = ((?a, ?e), ?s1\<lparr>pool := q\<rparr>)"
      by (simp add: net_DialTimeout_def Let_def)
    show ?thesis
    proof (cases ?e)
      case None
      then show ?thesis using True d dq
        by (subst dial_loop.simps, subst (2) dial_loop.simps) simp
    next
      case (Some e)
      show ?thesis
      proof (cases "is_timeout e")
        case False
        then show ?thesis using True d dq Some
          by (subst dial_loop.simps, subst (2) dial_loop.simps)
             (simp add: conn_Write_def Let_def)
      next
        case tmo: True
        have "dial_loop E addr (i + 1) ?a ?e (?s1\<lparr>pool := q\<rparr>) =
              apsnd (\<lambda>t. t\<lparr>pool := q\<rparr>) (dial_loop E addr (i + 1) ?a ?e ?s1)"
          using "1.IH" [OF True d [symmetric] refl Some tmo] .
        then show ?thesis using True d dq Some tmo
          by (subst dial_loop.simps, subst (2) dial_loop.simps) simp
      qed
    qed
  qed
qed

lemma dial_pool:
  "dial E addr (s\<lparr>pool := q\<rparr>) = apsnd (\<lambda>t. t\<lparr>pool := q\<rparr>) (dial E addr s)"
proof -
  obtain x s1 where l: "dial_loop E addr 0 None None s = (x, s1)" by (metis prod.exhaust)
  then have lq: "dial_loop E addr 0 None None (s\<lparr>pool := q\<rparr>) = (x, s1\<lparr>pool := q\<rparr>)"
    by (simp add: dial_loop_pool)
  show ?thesis
    unfolding dial_def l lq
    by (simp add: agentInit_pool conn_Write_def agent_Close_def Let_def
          split: dial_loop_exit.splits option.splits prod.splits outcome.splits)
qed

lemma handle_body_pool:
  "fst (handle_body E (s\<lparr>pool := q\<rparr>)) = fst (handle_body E s)"
  "trace (snd (handle_body E (s\<lparr>pool := q\<rparr>))) = trace (snd (handle_body E s))"
proof -
  obtain h s1 where hs: "handshake E s = (h, s1)" by (metis prod.exhaust)
  then have hq: "handshake E (s\<lparr>pool := q\<rparr>) = (h, s1\<lparr>pool := q\<rparr>)"
    by (simp add: handshake_pool)
  have "fst (handle_body E (s\<lparr>pool := q\<rparr>)) = fst (handle_body E s) \<and>
        trace (snd (handle_body E (s\<lparr>pool := q\<rparr>))) = trace (snd (handle_body E s))"
  proof (cases h)
    case (Inl err)
    then show ?thesis by (simp add: handle_body_def hs hq)
  next
    case (Inr addr)
    obtain r s2 where d: "dial E addr s1 = (r, s2)" by (metis prod.exhaust)
    then have dq: "dial E addr (s1\<lparr>pool := q\<rparr>) = (r, s2\<lparr>pool := q\<rparr>)"
      by (simp add: dial_pool)
    show ?thesis
      unfolding handle_body_def hs hq using Inr d dq
      by (simp add: conn_Write_def release_def Let_def
            split: outcome.splits option.splits prod.splits)
  qed
  then show "fst (handle_body E (s\<lparr>pool := q\<rparr>)) = fst (handle_body E s)"
    and "trace (snd (handle_body E (s\<lparr>pool := q\<rparr>))) = trace (snd (handle_body E s))"
    by simp_all
qed

lemma handle_trace_pool_independent:
  "trace (handle E pick (s\<lparr>pool := p\<rparr>)) = trace (handle E pick' (s\<lparr>pool := p'\<rparr>))"
proof -
  let ?s0 = "s\<lparr>rdr := NewReader\<rparr>"
  have run: "trace (handle E k (s\<lparr>pool := u\<rparr>)) =
      (let r = handle_body E ?s0;
           t1 = trace (snd r) @ (case snd (snd (fst r)) of Some a \<Rightarrow> [AgentClose] | None \<Rightarrow> []);
           t2 = t1 @ (if \<not> fst (snd (fst r)) then [PoolPut] else []) @ [ClientClose]
       in case fst (fst r) of Panics \<Rightarrow> t2 @ [LogPanic] | Returns v \<Rightarrow> t2)" for k u
  proof -
    let ?q = "snd (pool_Get k u)"
    have s: "s\<lparr>pool := u, rdr := NewReader, pool := ?q\<rparr> = ?s0\<lparr>pool := ?q\<rparr>" by simp
    obtain out rel ag s1 where hb: "handle_body E (?s0\<lparr>pool := ?q\<rparr>) = ((out, rel, ag), s1)"
      by (metis prod.exhaust)
    have f: "fst (handle_body E ?s0) = (out, rel, ag)" "trace (snd (handle_body E ?s0)) = trace s1"
      using handle_body_pool [of E ?q ?s0] hb by simp_all
    show ?thesis
      by (simp add: handle_def borrow_eq s hb f Let_def agent_Close_def release_def
            split: option.splits outcome.splits)
  qed
  show ?thesis unfolding run ..
qed

lemma pool_Get_subset: "set (snd (pool_Get pick p)) \<subseteq> set p"
proof (cases pick)
  case None
  then show ?thesis by (simp add: pool_Get_def)
next
  case (Some i)
  have "set (take i p @ drop (Suc i) p) \<subseteq> set p"
    using set_take_subset [of i p] set_drop_subset [of "Suc i" p] by auto
  then show ?thesis using Some by (simp add: pool_Get_def)
qed

text \<open>
  C7. Whatever the pool holds, the reader a connection starts with is in the state of a
  new reader: no buffered bytes, no pending error, no last byte. Every run of \<^verbatim>\<open>handle\<close>,
  on the early exits and on the path through the relay alike, puts the reader back
  exactly once and reset, so a pool of reset readers stays one. And what a connection
  does never depends on what the pool held or which reader it was given.
\<close>

theorem pooled_reader_is_reset:
  "fst (borrow pick p) = NewReader
   \<and> buffered (fst (borrow pick p)) = [] \<and> rerr (fst (borrow pick p)) = None
   \<and> lastByte (fst (borrow pick p)) = None \<and> rpos (fst (borrow pick p)) = 0
   \<and> pool (handle E pick s) = snd (pool_Get pick (pool s)) @ [Reset False NewReader]
   \<and> buffered (Reset False NewReader) = [] \<and> rerr (Reset False NewReader) = None
   \<and> lastByte (Reset False NewReader) = None \<and> \<not> rd (Reset False NewReader)
   \<and> (\<exists>evs. trace (handle E pick s) = trace s @ evs \<and> pool_puts evs = 1)
   \<and> ((\<forall>r \<in> set (pool s). r = Reset False NewReader) \<longrightarrow>
        (\<forall>r \<in> set (pool (handle E pick s)). r = Reset False NewReader))
   \<and> trace (handle E pick (s\<lparr>pool := p\<rparr>)) = trace (handle E pick' (s\<lparr>pool := p'\<rparr>))"
proof -
  from handle_cases [of E pick s] obtain evs where
    t: "trace (handle E pick s) = trace s @ evs" "pool_puts evs = 1" and
    q: "pool (handle E pick s) = snd (pool_Get pick (pool s)) @ [Reset False NewReader]"
    by blast
  have inv: "\<forall>r \<in> set (pool (handle E pick s)). r = Reset False NewReader"
    if "\<forall>r \<in> set (pool s). r = Reset False NewReader"
    using that pool_Get_subset [of pick "pool s"] unfolding q by auto
  have b: "fst (borrow pick p) = NewReader" by (rule borrow_NewReader)
  have n: "buffered NewReader = []" "rerr NewReader = None" "lastByte NewReader = None"
    "rpos NewReader = 0"
    by (simp_all add: NewReader_def)
  have r: "buffered (Reset False NewReader) = []" "rerr (Reset False NewReader) = None"
    "lastByte (Reset False NewReader) = None" "\<not> rd (Reset False NewReader)"
    by (simp_all add: Reset_def)
  show ?thesis
    unfolding b using n r q t inv handle_trace_pool_independent [of E pick p s pick' p']
    by blast
qed

theorem pooled_reader_is_reset_witness:
  "fst (borrow (Some 0)
         [\<lparr>buffered = [1, 2, 3], rpos = 5, rerr = Some EOF, lastByte = Some 7, rd = True\<rparr>])
     = NewReader
   \<and> pool (handle sample_env (Some 0)
            ((start [([0, 2, 9, 9], None)])\<lparr>pool := [Reset False NewReader, Reset False NewReader]\<rparr>))
     = [Reset False NewReader, Reset False NewReader]
   \<and> pool (handle sample_env None
            ((start [])\<lparr>pool := [Reset False NewReader]\<rparr>))
     = [Reset False NewReader, Reset False NewReader]"
proof -
  let ?dirty = "\<lparr>buffered = [1, 2, 3], rpos = 5, rerr = Some EOF, lastByte = Some 7, rd = True\<rparr>"
  let ?s1 = "(start [([0, 2, 9, 9], None)])\<lparr>pool := [Reset False NewReader, Reset False NewReader]\<rparr>"
  let ?s2 = "(start [])\<lparr>pool := [Reset False NewReader]\<rparr>"
  note t1 = pooled_reader_is_reset [of "Some 0" "[?dirty]" sample_env ?s1 None "[]"]
  note t2 = pooled_reader_is_reset [of None "[]" sample_env ?s2 None "[]"]
  have a: "fst (borrow (Some 0) [?dirty]) = NewReader" using t1 by blast
  have i1: "\<forall>r \<in> set (pool ?s1). r = Reset False NewReader" by simp
  have i2: "\<forall>r \<in> set (pool ?s2). r = Reset False NewReader" by simp
  have b: "pool (handle sample_env (Some 0) ?s1) =
           snd (pool_Get (Some 0) (pool ?s1)) @ [Reset False NewReader]"
    using t1 by blast
  have c: "pool (handle sample_env None ?s2) =
           snd (pool_Get None (pool ?s2)) @ [Reset False NewReader]"
    using t2 by blast
  from a b c show ?thesis by (simp add: pool_Get_def)
qed

section \<open>The buffered reader on a clean stream\<close>

lemma clean_stream_simps:
  "clean_stream []"
  "clean_stream ((d, e) # c) \<longleftrightarrow> d \<noteq> [] \<and> e = None \<and> clean_stream c"
  "stream_bytes [] = []"
  "stream_bytes ((d, e) # c) = d @ stream_bytes c"
  by (simp_all add: clean_stream_def stream_bytes_def)

lemma clean_stream_bytes_Nil: "clean_stream c \<Longrightarrow> stream_bytes c = [] \<longleftrightarrow> c = []"
  by (cases c) (auto simp: clean_stream_simps)

lemma conn_Read_clean:
  assumes "clean_stream c" and "c \<noteq> []" and "0 < cap"
  shows "\<exists>d c'. conn_Read cap c = ((d, None), c') \<and> d \<noteq> [] \<and> length d \<le> cap \<and>
           d @ stream_bytes c' = stream_bytes c \<and> clean_stream c'"
proof -
  from assms(2) obtain d0 e0 rest where c: "c = (d0, e0) # rest" by (cases c) auto
  with assms(1) have d0: "d0 \<noteq> []" "e0 = None" "clean_stream rest"
    by (simp_all add: clean_stream_simps)
  show ?thesis
  proof (cases "length d0 \<le> cap")
    case True
    then show ?thesis using c d0 by (simp add: clean_stream_simps)
  next
    case False
    then have "take cap d0 \<noteq> []" "drop cap d0 \<noteq> []" using assms(3) d0 by auto
    then show ?thesis using c d0 False by (simp add: clean_stream_simps)
  qed
qed

lemma fill_clean:
  assumes "clean_stream c" and "c \<noteq> []" and "length (buffered b) < defaultBufSize"
  shows "\<exists>d c'. fill b c = (b\<lparr>buffered := buffered b @ d, rpos := 0\<rparr>, c') \<and> d \<noteq> [] \<and>
           d @ stream_bytes c' = stream_bytes c \<and> clean_stream c'"
proof -
  have "0 < defaultBufSize - (0 + length (buffered b))" using assms(3) by simp
  from conn_Read_clean [OF assms(1,2) this] obtain d c' where
    r: "conn_Read (defaultBufSize - (0 + length (buffered b))) c = ((d, None), c')" and
    d: "d \<noteq> []" "d @ stream_bytes c' = stream_bytes c" "clean_stream c'"
    by blast
  have "fill b c = (b\<lparr>buffered := buffered b @ d, rpos := 0\<rparr>, c')"
    using r d(1) by (simp add: fill_def maxConsecutiveEmptyReads_def eval_nat_numeral)
  with d show ?thesis by blast
qed

lemma ReadByte_clean:
  assumes "clean_stream c" and "rerr b = None" and "buffered b @ stream_bytes c = x # rest"
  shows "\<exists>b' c'. ReadByte b c = (Inr x, b', c') \<and> buffered b' @ stream_bytes c' = rest \<and>
           clean_stream c' \<and> rerr b' = None \<and> rd b' = rd b"
proof (cases "buffered b")
  case (Cons y ys)
  with assms(3) have "y = x" "ys @ stream_bytes c = rest" by simp_all
  then show ?thesis using Cons assms(1,2) by (subst ReadByte.simps) simp
next
  case Nil
  with assms(3) have "c \<noteq> []" by (auto simp: clean_stream_simps)
  have "length (buffered b) < defaultBufSize" using Nil by (simp add: defaultBufSize_def)
  from fill_clean [OF assms(1) \<open>c \<noteq> []\<close> this] Nil obtain d c' where
    f: "fill b c = (b\<lparr>buffered := d, rpos := 0\<rparr>, c')" and
    d: "d \<noteq> []" "d @ stream_bytes c' = stream_bytes c" "clean_stream c'"
    by auto
  from d(1,2) assms(3) Nil obtain ds where ds: "d = x # ds" "ds @ stream_bytes c' = rest"
    by (cases d) auto
  have "ReadByte b c = ReadByte (b\<lparr>buffered := d, rpos := 0\<rparr>) c'"
    using Nil assms(2) f by (subst ReadByte.simps) simp
  also have "\<dots> = (Inr x, b\<lparr>buffered := ds, rpos := 1, lastByte := Some x\<rparr>, c')"
    using ds by (subst ReadByte.simps) simp
  finally show ?thesis using ds d(3) assms(2) by simp
qed

lemma ReadByte_eof:
  assumes "clean_stream c" and "rerr b = None" and "buffered b @ stream_bytes c = []"
  shows "\<exists>b'. ReadByte b c = (Inl EOF, b', [])"
proof -
  from assms have e: "buffered b = []" "c = []"
    by (simp_all add: clean_stream_bytes_Nil)
  have "ReadByte b [] = ReadByte (b\<lparr>rpos := 0, rerr := Some EOF\<rparr>) []"
    using e assms(2) by (subst ReadByte.simps) (simp add: fill_Nil)
  also have "\<dots> = (Inl EOF, b\<lparr>rpos := 0, rerr := None\<rparr>, [])"
    using e by (subst ReadByte.simps) simp
  finally show ?thesis using e by blast
qed

lemma bufio_Read_clean:
  assumes "clean_stream c" and "rerr b = None" and "0 < n" and "n < defaultBufSize"
    and "buffered b @ stream_bytes c \<noteq> []"
  shows "\<exists>d b' c'. bufio_Read n b c = ((d, None), b', c') \<and> d \<noteq> [] \<and> length d \<le> n \<and>
           d @ buffered b' @ stream_bytes c' = buffered b @ stream_bytes c \<and>
           clean_stream c' \<and> rerr b' = None"
proof (cases "buffered b = []")
  case False
  then have "bufio_Read n b c =
      ((take n (buffered b), None),
       b\<lparr>buffered := drop n (buffered b), rpos := rpos b + length (take n (buffered b)),
         lastByte := Some (last (take n (buffered b)))\<rparr>, c)"
    using assms(3) by (simp add: bufio_Read_def copy_out_def Let_def)
  then show ?thesis using False assms(1-3) by simp
next
  case True
  with assms(5) have "c \<noteq> []" by (auto simp: clean_stream_simps)
  from conn_Read_clean [OF assms(1) this, of defaultBufSize] obtain d c' where
    r: "conn_Read defaultBufSize c = ((d, None), c')" and
    d: "d \<noteq> []" "d @ stream_bytes c' = stream_bytes c" "clean_stream c'"
    by (auto simp: defaultBufSize_def)
  have "bufio_Read n b c =
      ((take n d, None),
       b\<lparr>buffered := drop n d, rpos := length (take n d), rerr := None,
         lastByte := Some (last (take n d))\<rparr>, c')"
    using True assms(2-4) r d(1) by (simp add: bufio_Read_def copy_out_def Let_def)
  moreover have "take n d @ drop n d @ stream_bytes c' = buffered b @ stream_bytes c"
    using d(2) True append_take_drop_id [of n d] by (metis append.assoc append_Nil)
  ultimately show ?thesis using d assms(3) by auto
qed

lemma bufio_Read_eof:
  assumes "clean_stream c" and "rerr b = None" and "0 < n" and "n < defaultBufSize"
    and "buffered b @ stream_bytes c = []"
  shows "bufio_Read n b c = (([], Some EOF), b\<lparr>rpos := 0\<rparr>, [])"
proof -
  from assms(1,5) have "buffered b = []" "c = []" by (simp_all add: clean_stream_bytes_Nil)
  then show ?thesis using assms(2-4) by (simp add: bufio_Read_def)
qed

lemma ReadAtLeast_loop_clean:
  assumes "clean_stream c" and "rerr b = None" and "need < defaultBufSize"
    and "need \<le> length (buffered b @ stream_bytes c)"
  shows "\<exists>b' c'. ReadAtLeast_loop need got b c =
             ((got @ take need (buffered b @ stream_bytes c), None), b', c') \<and>
           buffered b' @ stream_bytes c' = drop need (buffered b @ stream_bytes c) \<and>
           clean_stream c' \<and> rerr b' = None"
  using assms
proof (induction need arbitrary: got b c rule: less_induct)
  case (less need)
  show ?case
  proof (cases "need = 0")
    case True
    then show ?thesis using less.prems by (subst ReadAtLeast_loop.simps) simp
  next
    case False
    then have pos: "0 < need" by simp
    with less.prems(4) have ne: "buffered b @ stream_bytes c \<noteq> []" by auto
    from bufio_Read_clean [OF less.prems(1,2) pos less.prems(3) ne] obtain d b1 c1 where
      r: "bufio_Read need b c = ((d, None), b1, c1)" and
      d: "d \<noteq> []" "length d \<le> need"
        "d @ buffered b1 @ stream_bytes c1 = buffered b @ stream_bytes c"
        "clean_stream c1" "rerr b1 = None"
      by blast
    have lt: "need - length d < need" using d(1) pos by (cases d) auto
    have le: "need - length d \<le> length (buffered b1 @ stream_bytes c1)"
    proof -
      have "length (buffered b @ stream_bytes c) = length d + length (buffered b1 @ stream_bytes c1)"
        using d(3) by (metis length_append)
      with less.prems(4) show ?thesis by simp
    qed
    have sm: "need - length d < defaultBufSize" using less.prems(3) by simp
    from less.IH [OF lt d(4,5) sm le, of "got @ d"] obtain b' c' where
      ih: "ReadAtLeast_loop (need - length d) (got @ d) b1 c1 =
             (((got @ d) @ take (need - length d) (buffered b1 @ stream_bytes c1), None), b', c')"
        "buffered b' @ stream_bytes c' = drop (need - length d) (buffered b1 @ stream_bytes c1)"
        "clean_stream c'" "rerr b' = None"
      by blast
    have tk: "take need (buffered b @ stream_bytes c) =
              d @ take (need - length d) (buffered b1 @ stream_bytes c1)"
      using d(2) d(3) [symmetric] by simp
    have dr: "drop need (buffered b @ stream_bytes c) =
              drop (need - length d) (buffered b1 @ stream_bytes c1)"
      using d(2) d(3) [symmetric] by simp
    have "ReadAtLeast_loop need got b c = ReadAtLeast_loop (need - length d) (got @ d) b1 c1"
      using pos r by (subst ReadAtLeast_loop.simps) simp
    then show ?thesis using ih tk dr by simp
  qed
qed

lemma ReadAtLeast_loop_short:
  assumes "clean_stream c" and "rerr b = None" and "need < defaultBufSize"
    and "length (buffered b @ stream_bytes c) < need"
  shows "\<exists>b' c'. ReadAtLeast_loop need got b c =
             ((got @ buffered b @ stream_bytes c, Some EOF), b', c')"
  using assms
proof (induction need arbitrary: got b c rule: less_induct)
  case (less need)
  have pos: "0 < need" using less.prems(4) by simp
  show ?case
  proof (cases "buffered b @ stream_bytes c = []")
    case True
    from bufio_Read_eof [OF less.prems(1,2) pos less.prems(3) True] True
    show ?thesis using pos by (subst ReadAtLeast_loop.simps) simp
  next
    case False
    from bufio_Read_clean [OF less.prems(1,2) pos less.prems(3) False] obtain d b1 c1 where
      r: "bufio_Read need b c = ((d, None), b1, c1)" and
      d: "d \<noteq> []" "length d \<le> need"
        "d @ buffered b1 @ stream_bytes c1 = buffered b @ stream_bytes c"
        "clean_stream c1" "rerr b1 = None"
      by blast
    have lt: "need - length d < need" using d(1) pos by (cases d) auto
    have sh: "length (buffered b1 @ stream_bytes c1) < need - length d"
    proof -
      have "length (buffered b @ stream_bytes c) = length d + length (buffered b1 @ stream_bytes c1)"
        using d(3) by (metis length_append)
      with less.prems(4) show ?thesis by simp
    qed
    have sm: "need - length d < defaultBufSize" using less.prems(3) by simp
    from less.IH [OF lt d(4,5) sm sh, of "got @ d"] obtain b' c' where
      ih: "ReadAtLeast_loop (need - length d) (got @ d) b1 c1 =
             (((got @ d) @ buffered b1 @ stream_bytes c1, Some EOF), b', c')"
      by blast
    have "ReadAtLeast_loop need got b c = ReadAtLeast_loop (need - length d) (got @ d) b1 c1"
      using pos r by (subst ReadAtLeast_loop.simps) simp
    then show ?thesis using ih d(3) by simp
  qed
qed

lemma ReadFull_clean:
  assumes "clean_stream c" and "rerr b = None" and "n < defaultBufSize"
    and "n \<le> length (buffered b @ stream_bytes c)"
  shows "\<exists>b' c'. ReadFull n b c = ((take n (buffered b @ stream_bytes c), None), b', c') \<and>
           buffered b' @ stream_bytes c' = drop n (buffered b @ stream_bytes c) \<and>
           clean_stream c' \<and> rerr b' = None"
proof -
  from ReadAtLeast_loop_clean [OF assms, of "[]"] obtain b' c' where
    l: "ReadAtLeast_loop n [] b c = ((take n (buffered b @ stream_bytes c), None), b', c')"
      "buffered b' @ stream_bytes c' = drop n (buffered b @ stream_bytes c)"
      "clean_stream c'" "rerr b' = None"
    by auto
  have "ReadFull n b c = ((take n (buffered b @ stream_bytes c), None), b', c')"
    using l(1) assms(4) by (simp add: ReadFull_def)
  with l show ?thesis by blast
qed

lemma ReadFull_short:
  assumes "clean_stream c" and "rerr b = None" and "n < defaultBufSize"
    and "length (buffered b @ stream_bytes c) < n"
  shows "\<exists>got e b' c'. ReadFull n b c = ((got, Some e), b', c') \<and>
           e = (if buffered b @ stream_bytes c = [] then EOF else ErrUnexpectedEOF)"
proof -
  from ReadAtLeast_loop_short [OF assms, of "[]"] obtain b' c' where
    l: "ReadAtLeast_loop n [] b c = ((buffered b @ stream_bytes c, Some EOF), b', c')"
    by auto
  show ?thesis using l assms(4) by (auto simp: ReadFull_def)
qed

lemma first_occurrence_inside:
  assumes "xs @ ys = pre @ d # rest" and "d \<notin> set pre" and "d \<in> set xs"
  shows "\<exists>r1. xs = pre @ d # r1 \<and> rest = r1 @ ys"
proof -
  from assms(1) obtain us where
    "(xs = pre @ us \<and> us @ ys = d # rest) \<or> (xs @ us = pre \<and> ys = us @ d # rest)"
    by (auto simp: append_eq_append_conv2)
  then show ?thesis
  proof
    assume a: "xs = pre @ us \<and> us @ ys = d # rest"
    with assms(2,3) have "d \<in> set us" by auto
    then obtain u r1 where "us = u # r1" by (cases us) auto
    with a show ?thesis by auto
  next
    assume "xs @ us = pre \<and> ys = us @ d # rest"
    with assms(2,3) show ?thesis by auto
  qed
qed

lemma first_occurrence_beyond:
  assumes "xs @ ys = pre @ d # rest" and "d \<notin> set xs"
  shows "\<exists>p2. pre = xs @ p2 \<and> ys = p2 @ d # rest"
proof -
  from assms(1) obtain us where
    "(xs = pre @ us \<and> us @ ys = d # rest) \<or> (xs @ us = pre \<and> ys = us @ d # rest)"
    by (auto simp: append_eq_append_conv2)
  then show ?thesis
  proof
    assume a: "xs = pre @ us \<and> us @ ys = d # rest"
    have "us = []"
    proof (cases us)
      case (Cons u r1)
      with a assms(2) show ?thesis by auto
    qed simp
    with a show ?thesis by auto
  next
    assume "xs @ us = pre \<and> ys = us @ d # rest"
    then show ?thesis by auto
  qed
qed

lemma ReadSlice_clean:
  assumes "clean_stream c" and "rerr b = None"
    and "buffered b @ stream_bytes c = pre @ delim # rest"
    and "delim \<notin> set pre" and "length pre < defaultBufSize"
  shows "\<exists>b' c'. ReadSlice delim b c = ((pre @ [delim], None), b', c') \<and>
           buffered b' @ stream_bytes c' = rest \<and> clean_stream c' \<and> rerr b' = None"
  using assms
proof (induction delim b c rule: ReadSlice.induct)
  case (1 delim b cin)
  show ?case
  proof (cases "delim \<in> set (buffered b)")
    case True
    from first_occurrence_inside [OF "1.prems"(3,4) True] obtain r1 where
      r1: "buffered b = pre @ delim # r1" "rest = r1 @ stream_bytes cin"
      by blast
    have "takeWhile (\<lambda>c. c \<noteq> delim) (pre @ delim # r1) =
          pre @ takeWhile (\<lambda>c. c \<noteq> delim) (delim # r1)"
      using "1.prems"(4) by (intro takeWhile_append2) auto
    then have tw: "takeWhile (\<lambda>c. c \<noteq> delim) (buffered b) = pre"
      using r1(1) by simp
    show ?thesis
      using True tw r1 "1.prems"(1,2) by (subst ReadSlice.simps) (simp add: Let_def)
  next
    case False
    from first_occurrence_beyond [OF "1.prems"(3) False] obtain p2 where
      p2: "pre = buffered b @ p2" "stream_bytes cin = p2 @ delim # rest"
      by blast
    have nf: "\<not> defaultBufSize \<le> Buffered b"
      using p2(1) "1.prems"(5) by (simp add: Buffered_def)
    have ne: "cin \<noteq> []" using p2(2) by (auto simp: clean_stream_simps)
    have "length (buffered b) < defaultBufSize" using nf by (simp add: Buffered_def)
    from fill_clean [OF "1.prems"(1) ne this] obtain d c1 where
      f: "fill b cin = (b\<lparr>buffered := buffered b @ d, rpos := 0\<rparr>, c1)" and
      d: "d \<noteq> []" "d @ stream_bytes c1 = stream_bytes cin" "clean_stream c1"
      by blast
    let ?b1 = "b\<lparr>buffered := buffered b @ d, rpos := 0\<rparr>"
    have pend: "buffered ?b1 @ stream_bytes c1 = pre @ delim # rest"
      using d(2) "1.prems"(3) by simp
    have er: "rerr ?b1 = None" using "1.prems"(2) by simp
    from "1.IH" [OF False "1.prems"(2) nf f [symmetric] d(3) er pend "1.prems"(4,5)]
    obtain b' c' where
      ih: "ReadSlice delim ?b1 c1 = ((pre @ [delim], None), b', c')"
        "buffered b' @ stream_bytes c' = rest" "clean_stream c'" "rerr b' = None"
      by blast
    have "ReadSlice delim b cin = ReadSlice delim ?b1 c1"
      using False "1.prems"(2) nf f by (subst ReadSlice.simps) simp
    with ih show ?thesis by simp
  qed
qed

section \<open>Handshake on a clean stream\<close>

lemma unat_byte_small: "unat (n :: byte) < defaultBufSize"
proof -
  have "unat n < 2 ^ 8" using unsigned_less [of n, where 'a = nat] by simp
  then show ?thesis by (simp add: defaultBufSize_def)
qed

lemma handshake_binary_frame:
  assumes "clean_stream (cin s)" and "rerr (rdr s) = None"
    and "buffered (rdr s) @ stream_bytes (cin s) = 0 # n # ct @ extra"
    and "length ct = unat n"
  shows "\<exists>b' c'. buffered b' @ stream_bytes c' = extra \<and> clean_stream c' \<and> rerr b' = None \<and>
           handshake E s =
             (case Decrypt E (cfgSecret E) ct of
                Inl err \<Rightarrow> (Inl err, snd (conn_Write E codeBadAddr (s\<lparr>rdr := b', cin := c'\<rparr>)))
              | Inr addr \<Rightarrow> (Inr addr, s\<lparr>rdr := b', cin := c'\<rparr>))"
proof -
  from ReadByte_clean [OF assms(1,2,3)] obtain b1 c1 where
    r1: "ReadByte (rdr s) (cin s) = (Inr 0, b1, c1)" and
    p1: "buffered b1 @ stream_bytes c1 = n # ct @ extra" "clean_stream c1" "rerr b1 = None"
    by blast
  from ReadByte_clean [OF p1(2,3,1)] obtain b2 c2 where
    r2: "ReadByte b1 c1 = (Inr n, b2, c2)" and
    p2: "buffered b2 @ stream_bytes c2 = ct @ extra" "clean_stream c2" "rerr b2 = None"
    by blast
  have le: "unat n \<le> length (buffered b2 @ stream_bytes c2)"
    using p2(1) assms(4) by (metis le_add1 length_append)
  from ReadFull_clean [OF p2(2,3) unat_byte_small le] obtain b3 c3 where
    r3: "ReadFull (unat n) b2 c2 = ((take (unat n) (buffered b2 @ stream_bytes c2), None), b3, c3)"
    and p3: "buffered b3 @ stream_bytes c3 = drop (unat n) (buffered b2 @ stream_bytes c2)"
      "clean_stream c3" "rerr b3 = None"
    by blast
  have tk: "take (unat n) (buffered b2 @ stream_bytes c2) = ct"
    and dr: "drop (unat n) (buffered b2 @ stream_bytes c2) = extra"
    unfolding p2(1) using assms(4) by simp_all
  have "handshake E s =
             (case Decrypt E (cfgSecret E) ct of
                Inl err \<Rightarrow> (Inl err, snd (conn_Write E codeBadAddr (s\<lparr>rdr := b3, cin := c3\<rparr>)))
              | Inr addr \<Rightarrow> (Inr addr, s\<lparr>rdr := b3, cin := c3\<rparr>))"
    using r1 r2 r3 tk by (simp add: handshake_def handshakeBinary_def split: sum.splits)
  with p3 dr show ?thesis by auto
qed

lemma handshake_binary_short:
  assumes "clean_stream (cin s)" and "rerr (rdr s) = None"
    and "buffered (rdr s) @ stream_bytes (cin s) = 0 # n # partial"
    and "length partial < unat n"
  shows "\<exists>e s1. handshake E s = (Inl e, s1) \<and>
           trace s1 = trace s @ [ClientWrite codeBadReq (client_write E (nwrite s))]"
proof -
  from ReadByte_clean [OF assms(1,2,3)] obtain b1 c1 where
    r1: "ReadByte (rdr s) (cin s) = (Inr 0, b1, c1)" and
    p1: "buffered b1 @ stream_bytes c1 = n # partial" "clean_stream c1" "rerr b1 = None"
    by blast
  from ReadByte_clean [OF p1(2,3,1)] obtain b2 c2 where
    r2: "ReadByte b1 c1 = (Inr n, b2, c2)" and
    p2: "buffered b2 @ stream_bytes c2 = partial" "clean_stream c2" "rerr b2 = None"
    by blast
  have sh: "length (buffered b2 @ stream_bytes c2) < unat n"
    using p2(1) assms(4) by simp
  from ReadFull_short [OF p2(2,3) unat_byte_small sh] obtain got e b3 c3 where
    r3: "ReadFull (unat n) b2 c2 = ((got, Some e), b3, c3)"
    by blast
  show ?thesis
    using r1 r2 r3
    by (simp add: handshake_def handshakeBinary_def conn_Write_def Let_def)
qed

lemma handshake_binary_no_length:
  assumes "clean_stream (cin s)" and "rerr (rdr s) = None"
    and "buffered (rdr s) @ stream_bytes (cin s) = [0]"
  shows "\<exists>e s1. handshake E s = (Inl e, s1) \<and>
           trace s1 = trace s @ [ClientWrite codeBadReq (client_write E (nwrite s))]"
proof -
  from ReadByte_clean [OF assms(1,2,3)] obtain b1 c1 where
    r1: "ReadByte (rdr s) (cin s) = (Inr 0, b1, c1)" and
    p1: "buffered b1 @ stream_bytes c1 = []" "clean_stream c1" "rerr b1 = None"
    by blast
  from ReadByte_eof [OF p1(2,3,1)] obtain b2 where
    r2: "ReadByte b1 c1 = (Inl EOF, b2, [])"
    by blast
  show ?thesis
    using r1 r2
    by (simp add: handshake_def handshakeBinary_def conn_Write_def Let_def)
qed

lemma handshake_text_frame:
  assumes "clean_stream (cin s)" and "rerr (rdr s) = None"
    and "buffered (rdr s) @ stream_bytes (cin s) = line @ 10 # extra"
    and "10 \<notin> set line" and "0 \<notin> set line" and "length line < defaultBufSize"
  shows "\<exists>b' c'. buffered b' @ stream_bytes c' = extra \<and> clean_stream c' \<and> rerr b' = None \<and>
           handshake E s =
             (case DecryptBase64 E (cfgSecret E) (line @ [10]) of
                Inl err \<Rightarrow> (Inl err, snd (conn_Write E codeBadAddr (s\<lparr>rdr := b', cin := c'\<rparr>)))
              | Inr addr \<Rightarrow> (Inr addr, s\<lparr>rdr := b', cin := c'\<rparr>))"
proof -
  obtain x rest where xr: "line @ 10 # extra = x # rest" by (cases line) auto
  have x0: "x \<noteq> 0" using xr assms(5) by (cases line) auto
  from ReadByte_clean [OF assms(1,2)] assms(3) xr obtain b1 c1 where
    r1: "ReadByte (rdr s) (cin s) = (Inr x, b1, c1)" and
    p1: "buffered b1 @ stream_bytes c1 = rest" "clean_stream c1" "rerr b1 = None"
    by metis
  let ?b2 = "b1\<lparr>buffered := x # buffered b1, rpos := rpos b1 - 1, lastByte := None\<rparr>"
  have u: "UnreadByte b1 = (None, ?b2)"
    using UnreadByte_after_ReadByte [OF r1] .
  have p2: "buffered ?b2 @ stream_bytes c1 = line @ 10 # extra" "rerr ?b2 = None"
    using p1 xr by simp_all
  from ReadSlice_clean [OF p1(2) p2(2,1) assms(4,6)] obtain b3 c3 where
    r3: "ReadSlice 10 ?b2 c1 = ((line @ [10], None), b3, c3)" and
    p3: "buffered b3 @ stream_bytes c3 = extra" "clean_stream c3" "rerr b3 = None"
    by blast
  have "handshake E s =
             (case DecryptBase64 E (cfgSecret E) (line @ [10]) of
                Inl err \<Rightarrow> (Inl err, snd (conn_Write E codeBadAddr (s\<lparr>rdr := b3, cin := c3\<rparr>)))
              | Inr addr \<Rightarrow> (Inr addr, s\<lparr>rdr := b3, cin := c3\<rparr>))"
    using r1 x0 u r3 by (simp add: handshake_def handshakeText_def split: sum.splits)
  with p3 show ?thesis by auto
qed

section \<open>Binary frames that fail\<close>

lemma bufio_Read_length:
  "bufio_Read n b c = ((d, e), b', c') \<Longrightarrow> length d \<le> n"
  by (auto simp: bufio_Read_def copy_out_def Let_def dest: conn_Read_length
        split: if_splits option.splits prod.splits)

lemma ReadAtLeast_loop_length:
  "ReadAtLeast_loop need got b c = ((got', e), b', c') \<Longrightarrow> length got' \<le> length got + need"
proof (induction need got b c rule: ReadAtLeast_loop.induct)
  case (1 need got b cin)
  show ?case
  proof (cases "need = 0")
    case True
    with "1.prems" show ?thesis by (subst (asm) ReadAtLeast_loop.simps) simp
  next
    case False
    obtain d e1 b1 c1 where r: "bufio_Read need b cin = ((d, e1), b1, c1)"
      by (metis prod.exhaust)
    note dl = bufio_Read_length [OF r]
    show ?thesis
    proof (cases e1)
      case (Some err)
      with "1.prems" False r have "got' = got @ d"
        by (subst (asm) ReadAtLeast_loop.simps) simp
      with dl show ?thesis by simp
    next
      case None
      with "1.prems" False r
      have "ReadAtLeast_loop (need - length d) (got @ d) b1 c1 = ((got', e), b', c')"
        by (subst (asm) ReadAtLeast_loop.simps) simp
      from "1.IH" [OF False r [symmetric] refl refl None this] dl show ?thesis by simp
    qed
  qed
qed

lemma ReadAtLeast_loop_None:
  "ReadAtLeast_loop need got b c = ((got', None), b', c') \<Longrightarrow> length got' = length got + need"
proof (induction need got b c rule: ReadAtLeast_loop.induct)
  case (1 need got b cin)
  show ?case
  proof (cases "need = 0")
    case True
    with "1.prems" show ?thesis by (subst (asm) ReadAtLeast_loop.simps) simp
  next
    case False
    obtain d e1 b1 c1 where r: "bufio_Read need b cin = ((d, e1), b1, c1)"
      by (metis prod.exhaust)
    note dl = bufio_Read_length [OF r]
    show ?thesis
    proof (cases e1)
      case (Some err)
      with "1.prems" False r show ?thesis
        by (subst (asm) ReadAtLeast_loop.simps) simp
    next
      case None
      with "1.prems" False r
      have "ReadAtLeast_loop (need - length d) (got @ d) b1 c1 = ((got', None), b', c')"
        by (subst (asm) ReadAtLeast_loop.simps) simp
      from "1.IH" [OF False r [symmetric] refl refl None this] dl show ?thesis by simp
    qed
  qed
qed

lemma ReadFull_length:
  assumes "ReadFull n b c = ((bin, None), b', c')"
  shows "length bin = n"
proof -
  obtain got e b1 c1 where l: "ReadAtLeast_loop n [] b c = ((got, e), b1, c1)"
    by (metis prod.exhaust)
  from ReadAtLeast_loop_length [OF l] have le: "length got \<le> n" by simp
  show ?thesis
  proof (cases "n \<le> length got")
    case True
    with assms l le show ?thesis by (simp add: ReadFull_def)
  next
    case False
    with assms l have "e = None" "bin = got"
      by (auto simp: ReadFull_def split: if_splits)
    with l ReadAtLeast_loop_None [of n "[]" b c got b1 c1] show ?thesis by simp
  qed
qed

lemma handshakeBinary_fails:
  "ReadByte (rdr t) (cin t) = (Inl err, b2, c2) \<Longrightarrow>
     \<exists>s1. handshakeBinary E t = (Inl err, s1) \<and>
          trace s1 = trace t @ [ClientWrite codeBadReq (client_write E (nwrite t))]"
  "ReadByte (rdr t) (cin t) = (Inr n, b2, c2) \<Longrightarrow>
   ReadFull (unat n) b2 c2 = ((bin, Some err), b3, c3) \<Longrightarrow>
     \<exists>s1. handshakeBinary E t = (Inl err, s1) \<and>
          trace s1 = trace t @ [ClientWrite codeBadReq (client_write E (nwrite t))]"
  "ReadByte (rdr t) (cin t) = (Inr n, b2, c2) \<Longrightarrow>
   ReadFull (unat n) b2 c2 = ((bin, None), b3, c3) \<Longrightarrow>
   Decrypt E (cfgSecret E) bin = Inl err \<Longrightarrow>
     \<exists>s1. handshakeBinary E t = (Inl err, s1) \<and>
          trace s1 = trace t @ [ClientWrite codeBadAddr (client_write E (nwrite t))]"
  by (simp_all add: handshakeBinary_def conn_Write_def Let_def)

lemma handle_binary_fails:
  assumes "ReadByte NewReader (cin s) = (Inr 0, b1, c1)"
    and "handshakeBinary E
           (s\<lparr>rdr := NewReader, pool := snd (pool_Get pick (pool s))\<rparr>\<lparr>rdr := b1, cin := c1\<rparr>)
           = (Inl err, s1)"
  shows "trace (handle E pick s) = trace s1 @ [PoolPut, ClientClose]"
proof -
  let ?s0 = "s\<lparr>rdr := NewReader, pool := snd (pool_Get pick (pool s))\<rparr>"
  have "handshake E ?s0 = (Inl err, s1)"
    using assms by (simp add: handshake_def)
  from handle_handshake_fails [OF this] show ?thesis .
qed

text \<open>
  C2. Take a handshake whose first byte is 0. If reading the length byte fails, or if
  reading the N ciphertext bytes fails, the handler writes \<^verbatim>\<open>400\<close>, gives the reader back
  and closes: no dial is attempted. If the N bytes are read (exactly N) and the cipher
  rejects them, it writes \<^verbatim>\<open>401\<close> in the same way. A frame cut short, with the length
  byte missing or fewer than N bytes before the peer closes, is a case of the first
  kind, in whatever pieces the bytes arrive.
\<close>

theorem binary_frame_failures:
  "(ReadByte NewReader (cin s) = (Inr 0, b1, c1) \<and> ReadByte b1 c1 = (Inl err, b2, c2) \<longrightarrow>
      trace (handle E pick s) =
        trace s @ [ClientWrite codeBadReq (client_write E (nwrite s)), PoolPut, ClientClose])
   \<and> (ReadByte NewReader (cin s) = (Inr 0, b1, c1) \<and> ReadByte b1 c1 = (Inr n, b2, c2) \<and>
      ReadFull (unat n) b2 c2 = ((bin, Some err), b3, c3) \<longrightarrow>
      trace (handle E pick s) =
        trace s @ [ClientWrite codeBadReq (client_write E (nwrite s)), PoolPut, ClientClose])
   \<and> (ReadByte NewReader (cin s) = (Inr 0, b1, c1) \<and> ReadByte b1 c1 = (Inr n, b2, c2) \<and>
      ReadFull (unat n) b2 c2 = ((bin, None), b3, c3) \<and>
      Decrypt E (cfgSecret E) bin = Inl err \<longrightarrow>
      length bin = unat n \<and>
      trace (handle E pick s) =
        trace s @ [ClientWrite codeBadAddr (client_write E (nwrite s)), PoolPut, ClientClose])
   \<and> (clean_stream (cin s) \<and>
      (stream_bytes (cin s) = [0] \<or>
       (\<exists>partial. stream_bytes (cin s) = 0 # n # partial \<and> length partial < unat n)) \<longrightarrow>
      trace (handle E pick s) =
        trace s @ [ClientWrite codeBadReq (client_write E (nwrite s)), PoolPut, ClientClose])"
proof -
  let ?q = "snd (pool_Get pick (pool s))"
  let ?s0 = "s\<lparr>rdr := NewReader, pool := ?q\<rparr>"
  let ?t = "?s0\<lparr>rdr := b1, cin := c1\<rparr>"
  let ?bad = "trace (handle E pick s) =
        trace s @ [ClientWrite codeBadReq (client_write E (nwrite s)), PoolPut, ClientClose]"
  have t: "rdr ?t = b1" "cin ?t = c1" "trace ?t = trace s" "nwrite ?t = nwrite s"
    by simp_all
  have A: ?bad
    if a: "ReadByte NewReader (cin s) = (Inr 0, b1, c1)" "ReadByte b1 c1 = (Inl err, b2, c2)"
  proof -
    from a(2) have "ReadByte (rdr ?t) (cin ?t) = (Inl err, b2, c2)" by simp
    from handshakeBinary_fails(1) [OF this, of E] obtain s1 where
      h: "handshakeBinary E ?t = (Inl err, s1)"
        "trace s1 = trace ?t @ [ClientWrite codeBadReq (client_write E (nwrite ?t))]"
      by blast
    from handle_binary_fails [OF a(1) h(1)] h(2) show ?thesis by simp
  qed
  have B: ?bad
    if a: "ReadByte NewReader (cin s) = (Inr 0, b1, c1)" "ReadByte b1 c1 = (Inr n, b2, c2)"
      "ReadFull (unat n) b2 c2 = ((bin, Some err), b3, c3)"
  proof -
    from a(2) have "ReadByte (rdr ?t) (cin ?t) = (Inr n, b2, c2)" by simp
    from handshakeBinary_fails(2) [OF this a(3), of E] obtain s1 where
      h: "handshakeBinary E ?t = (Inl err, s1)"
        "trace s1 = trace ?t @ [ClientWrite codeBadReq (client_write E (nwrite ?t))]"
      by blast
    from handle_binary_fails [OF a(1) h(1)] h(2) show ?thesis by simp
  qed
  have C: "length bin = unat n \<and> trace (handle E pick s) =
        trace s @ [ClientWrite codeBadAddr (client_write E (nwrite s)), PoolPut, ClientClose]"
    if a: "ReadByte NewReader (cin s) = (Inr 0, b1, c1)" "ReadByte b1 c1 = (Inr n, b2, c2)"
      "ReadFull (unat n) b2 c2 = ((bin, None), b3, c3)" "Decrypt E (cfgSecret E) bin = Inl err"
  proof -
    from a(2) have "ReadByte (rdr ?t) (cin ?t) = (Inr n, b2, c2)" by simp
    from handshakeBinary_fails(3) [OF this a(3) a(4)] obtain s1 where
      h: "handshakeBinary E ?t = (Inl err, s1)"
        "trace s1 = trace ?t @ [ClientWrite codeBadAddr (client_write E (nwrite ?t))]"
      by blast
    from handle_binary_fails [OF a(1) h(1)] h(2) ReadFull_length [OF a(3)]
    show ?thesis by simp
  qed
  have D: ?bad
    if a: "clean_stream (cin s)"
      "stream_bytes (cin s) = [0] \<or>
       (\<exists>partial. stream_bytes (cin s) = 0 # n # partial \<and> length partial < unat n)"
  proof -
    have c: "clean_stream (cin ?s0)" "rerr (rdr ?s0) = None"
      using a by (simp_all add: NewReader_def)
    have "\<exists>e s1. handshake E ?s0 = (Inl e, s1) \<and>
           trace s1 = trace ?s0 @ [ClientWrite codeBadReq (client_write E (nwrite ?s0))]"
    proof (cases "stream_bytes (cin s) = [0]")
      case True
      then have "buffered (rdr ?s0) @ stream_bytes (cin ?s0) = [0]"
        by (simp add: NewReader_def)
      from handshake_binary_no_length [OF c this] show ?thesis .
    next
      case False
      with a obtain partial where
        p: "stream_bytes (cin s) = 0 # n # partial" "length partial < unat n" by blast
      then have "buffered (rdr ?s0) @ stream_bytes (cin ?s0) = 0 # n # partial"
        by (simp add: NewReader_def)
      from handshake_binary_short [OF c this p(2)] show ?thesis .
    qed
    then obtain e s1 where
      h: "handshake E ?s0 = (Inl e, s1)"
        "trace s1 = trace ?s0 @ [ClientWrite codeBadReq (client_write E (nwrite ?s0))]"
      by blast
    from handle_handshake_fails [OF h(1)] h(2) show ?thesis by simp
  qed
  from A B C D show ?thesis by blast
qed

text \<open>The four cases on the sample environment: a lone 0 byte, a rejected frame, and a
  frame cut short that arrives in two pieces.\<close>

theorem binary_frame_failures_witness:
  "ReadByte NewReader (cin (start [([0], None)])) =
      (Inr 0, \<lparr>buffered = [], rpos = 1, rerr = None, lastByte = Some 0, rd = True\<rparr>, [])
   \<and> ReadByte \<lparr>buffered = [], rpos = 1, rerr = None, lastByte = Some 0, rd = True\<rparr> [] =
      (Inl EOF, \<lparr>buffered = [], rpos = 0, rerr = None, lastByte = Some 0, rd = True\<rparr>, [])
   \<and> trace (handle sample_env None (start [([0], None)])) =
      [ClientWrite codeBadReq None, PoolPut, ClientClose]
   \<and> ReadByte NewReader (cin (start [([0, 2, 7, 7], None)])) =
      (Inr 0, \<lparr>buffered = [2, 7, 7], rpos = 1, rerr = None, lastByte = Some 0, rd = True\<rparr>, [])
   \<and> ReadByte \<lparr>buffered = [2, 7, 7], rpos = 1, rerr = None, lastByte = Some 0, rd = True\<rparr> [] =
      (Inr 2, \<lparr>buffered = [7, 7], rpos = 2, rerr = None, lastByte = Some 2, rd = True\<rparr>, [])
   \<and> ReadFull (unat (2 :: byte))
        \<lparr>buffered = [7, 7], rpos = 2, rerr = None, lastByte = Some 2, rd = True\<rparr> [] =
      (([7, 7], None),
       \<lparr>buffered = [], rpos = 4, rerr = None, lastByte = Some 7, rd = True\<rparr>, [])
   \<and> Decrypt sample_env (cfgSecret sample_env) [7, 7] = Inl (OtherError ''cipher'')
   \<and> trace (handle sample_env None (start [([0, 2, 7, 7], None)])) =
      [ClientWrite codeBadAddr None, PoolPut, ClientClose]
   \<and> clean_stream (cin (start [([0, 2], None), ([9], None)]))
   \<and> stream_bytes (cin (start [([0, 2], None), ([9], None)])) = 0 # 2 # [9]
   \<and> length [9 :: byte] < unat (2 :: byte)
   \<and> trace (handle sample_env None (start [([0, 2], None), ([9], None)])) =
      [ClientWrite codeBadReq None, PoolPut, ClientClose]
   \<and> dial_attempts (trace (handle sample_env None (start [([0, 2], None), ([9], None)]))) = []"
proof -
  let ?E = sample_env
  let ?sa = "start [([0], None)]"
  let ?a1 = "\<lparr>buffered = [], rpos = 1, rerr = None, lastByte = Some (0 :: byte), rd = True\<rparr>"
  let ?a2 = "\<lparr>buffered = [], rpos = 0, rerr = None, lastByte = Some (0 :: byte), rd = True\<rparr>"
  let ?sc = "start [([0, 2, 7, 7], None)]"
  let ?c1 = "\<lparr>buffered = [2, 7, 7], rpos = 1, rerr = None, lastByte = Some (0 :: byte), rd = True\<rparr>"
  let ?c2 = "\<lparr>buffered = [7, 7], rpos = 2, rerr = None, lastByte = Some (2 :: byte), rd = True\<rparr>"
  let ?c3 = "\<lparr>buffered = [], rpos = 4, rerr = None, lastByte = Some (7 :: byte), rd = True\<rparr>"
  let ?sd = "start [([0, 2], None), ([9], None)]"
  have a: "ReadByte NewReader (cin ?sa) = (Inr 0, ?a1, [])" "ReadByte ?a1 [] = (Inl EOF, ?a2, [])"
    by code_simp+
  have c: "ReadByte NewReader (cin ?sc) = (Inr 0, ?c1, [])" "ReadByte ?c1 [] = (Inr 2, ?c2, [])"
    "ReadFull (unat (2 :: byte)) ?c2 [] = (([7, 7], None), ?c3, [])"
    "Decrypt ?E (cfgSecret ?E) [7, 7] = Inl (OtherError ''cipher'')"
    by code_simp+
  have d: "clean_stream (cin ?sd)" "stream_bytes (cin ?sd) = 0 # 2 # [9]"
    "length [9 :: byte] < unat (2 :: byte)"
    by code_simp+
  have n: "trace ?sa = []" "trace ?sc = []" "trace ?sd = []"
    "client_write ?E (nwrite ?sa) = None" "client_write ?E (nwrite ?sc) = None"
    "client_write ?E (nwrite ?sd) = None"
    by (simp_all add: start_def sample_env_def)
  from binary_frame_failures [where s = ?sa and ?b1.0 = ?a1 and ?c1.0 = "[]" and err = EOF
      and ?b2.0 = ?a2 and ?c2.0 = "[]" and E = ?E and pick = None] a
  have ta: "trace (handle ?E None ?sa) = [ClientWrite codeBadReq None, PoolPut, ClientClose]"
    by (simp only: n append_Nil)
  from binary_frame_failures [where s = ?sc and ?b1.0 = ?c1 and ?c1.0 = "[]" and n = 2
      and ?b2.0 = ?c2 and ?c2.0 = "[]" and E = ?E and pick = None and bin = "[7, 7]"
      and ?b3.0 = ?c3 and ?c3.0 = "[]" and err = "OtherError ''cipher''"] c
  have tc: "trace (handle ?E None ?sc) = [ClientWrite codeBadAddr None, PoolPut, ClientClose]"
    by (simp only: n append_Nil)
  from d(2,3) have "\<exists>partial. stream_bytes (cin ?sd) = 0 # 2 # partial \<and> length partial < unat (2 :: byte)"
    by blast
  from binary_frame_failures [where s = ?sd and n = 2 and E = ?E and pick = None,
      THEN conjunct2, THEN conjunct2, THEN conjunct2, rule_format,
      OF conjI [OF d(1) disjI2 [OF this]]]
  have td: "trace (handle ?E None ?sd) = [ClientWrite codeBadReq None, PoolPut, ClientClose]"
    by (simp only: n append_Nil)
  have dd: "dial_attempts [ClientWrite codeBadReq None, PoolPut, ClientClose] = []"
    by (simp add: dial_attempts_def)
  from a c d ta tc td dd show ?thesis by (simp only: simp_thms)
qed

section \<open>What the backend receives\<close>

lemma backend_received_bootstrap:
  "backend_received [AgentSetWriteDeadline True None, AgentWrite p None, AgentWrite q None,
                     AgentSetWriteDeadline False None] = p @ q"
  "relay_events [AgentSetWriteDeadline True None, AgentWrite p None, AgentWrite q None,
                 AgentSetWriteDeadline False None] = []"
  by (simp_all add: proj_defs)

lemma dial_success_backend:
  assumes "dial E addr s = (Returns (ag, None), s')"
  shows "\<exists>addrBuf. make_addrBuf (RemoteAddr E) = Some addrBuf \<and>
           backend_received (trace s')
             = backend_received (trace s) @ addrBuf @ buffered (rdr s) \<and>
           relay_events (trace s') = relay_events (trace s)"
proof -
  obtain x s1 where l: "dial_loop E addr 0 None None s = (x, s1)" by (metis prod.exhaust)
  from dial_loop_trace [OF l] obtain k where
    f1: "rdr s1 = rdr s" and
    t1: "trace s1 = trace s @ replicate k (DialTimeout addr) @
             (case x of
                LoopReturn a e \<Rightarrow> [ClientWrite codeDialErr (client_write E (nwrite s))]
              | LoopDone a e \<Rightarrow> [])"
    by blast
  show ?thesis
  proof (cases x)
    case (LoopReturn a e)
    with dial_loop_LoopReturn [of E addr 0 None None s a e s1] l assms show ?thesis
      by (auto simp: dial_def)
  next
    case (LoopDone a e)
    show ?thesis
    proof (cases e)
      case (Some err)
      with assms l LoopDone show ?thesis by (simp add: dial_def)
    next
      case None
      obtain r2 s2 where i: "agentInit E a s1 = (r2, s2)" by (metis prod.exhaust)
      have "r2 = Returns None \<and> s' = s2"
        using assms l LoopDone None i
        by (cases r2) (auto simp: dial_def split: option.splits)
      with i have "agentInit E a s1 = (Returns None, s')" by simp
      from agentInit_success [OF this] obtain addrBuf where
        m: "make_addrBuf (RemoteAddr E) = Some addrBuf" and
        t2: "trace s' = trace s1 @ [AgentSetWriteDeadline True None, AgentWrite addrBuf None,
                                 AgentWrite (buffered (rdr s1)) None,
                                 AgentSetWriteDeadline False None]"
        by blast
      from t1 LoopDone have "trace s1 = trace s @ replicate k (DialTimeout addr)" by simp
      with t2 f1 m show ?thesis
        by (simp add: proj_append proj_replicate_DialTimeout backend_received_bootstrap)
    qed
  qed
qed

lemma handle_success:
  assumes h: "handshake E (s\<lparr>rdr := NewReader, pool := snd (pool_Get pick (pool s))\<rparr>)
                = (Inr addr, s1)"
    and d: "dial E addr s1 = (Returns (Some a, None), s2)"
  shows "trace (handle E pick s) =
           trace s2 @ PoolPut # ClientWrite codeOK (client_write E (nwrite s)) #
             (if client_write E (nwrite s) = None
              then [Go_safeCopy Backend Client, Io_Copy Client Backend] else []) @
             [AgentClose, ClientClose]"
proof -
  from handshake_trace [OF h] have "nwrite s1 = nwrite s" by simp
  moreover from dial_trace [OF d] have "nwrite s2 = nwrite s1" by auto
  ultimately have n: "nwrite s2 = nwrite s" by simp
  show ?thesis
  proof (cases "client_write E (nwrite s)")
    case None
    with h d n show ?thesis
      by (simp add: handle_def borrow_eq handle_body_def release_def conn_Write_def
          agent_Close_def Let_def)
  next
    case (Some err)
    with h d n show ?thesis
      by (simp add: handle_def borrow_eq handle_body_def release_def conn_Write_def
          agent_Close_def Let_def)
  qed
qed


text \<open>
  C5. Let the handshake of a connection give an address and \<^verbatim>\<open>dial\<close> return a
  connection, so that the bootstrap succeeded. The client's remote address is the
  \<^verbatim>\<open>ip:port\<close> string of a TCP connection, which has far fewer than 255 bytes; the bound
  assumed is 254. Then all that the backend is sent in the whole run of the handler is:
  one byte holding the length of the remote address, the address, and the bytes the
  reader had buffered beyond the handshake frame, in this order. It is all sent by
  \<^verbatim>\<open>dial\<close>, before the relay starts. Nothing the client pipelined is lost: on a binary frame
  and on a text line alike, the bytes after the frame are the buffered ones, which the
  backend has received, followed by those still unread on the connection, which the relay
  will copy.
\<close>

theorem backend_preamble:
  assumes h: "handshake E (s\<lparr>rdr := NewReader, pool := snd (pool_Get pick (pool s))\<rparr>)
                = (Inr addr, s1)"
    and d: "dial E addr s1 = (Returns (Some a, None), s2)"
    and len: "length (RemoteAddr E) \<le> 254"
  shows "backend_received (trace (handle E pick s)) =
           backend_received (trace s) @
             word_of_nat (length (RemoteAddr E)) # RemoteAddr E @ buffered (rdr s1)
         \<and> unat (word_of_nat (length (RemoteAddr E)) :: byte) = length (RemoteAddr E)
         \<and> backend_received (trace s2) = backend_received (trace (handle E pick s))
         \<and> relay_events (trace s2) = relay_events (trace s)
         \<and> (clean_stream (cin s) \<and> stream_bytes (cin s) = 0 # n # ct @ extra \<and>
            length ct = unat n \<longrightarrow>
              buffered (rdr s1) @ stream_bytes (cin s2) = extra)
         \<and> (clean_stream (cin s) \<and> stream_bytes (cin s) = line @ 10 # extra \<and>
            10 \<notin> set line \<and> 0 \<notin> set line \<and> length line < defaultBufSize \<longrightarrow>
              buffered (rdr s1) @ stream_bytes (cin s2) = extra)"
proof -
  let ?s0 = "s\<lparr>rdr := NewReader, pool := snd (pool_Get pick (pool s))\<rparr>"
  from handshake_trace [OF h] have t1: "trace s1 = trace s" by simp
  from dial_trace [OF d] have c2: "cin s2 = cin s1" by simp
  from dial_success_backend [OF d] obtain addrBuf where
    m: "make_addrBuf (RemoteAddr E) = Some addrBuf" and
    b: "backend_received (trace s2) = backend_received (trace s1) @ addrBuf @ buffered (rdr s1)" and
    r: "relay_events (trace s2) = relay_events (trace s1)"
    by blast
  from m make_addrBuf_short(1) [OF len]
  have ab: "addrBuf = word_of_nat (length (RemoteAddr E)) # RemoteAddr E" by simp
  have tail: "backend_received (PoolPut # ClientWrite codeOK w # (if w = None
              then [Go_safeCopy Backend Client, Io_Copy Client Backend] else []) @
             [AgentClose, ClientClose]) = []" for w
    by (cases w) (simp_all add: backend_received_def)
  have hb: "backend_received (trace (handle E pick s)) = backend_received (trace s2)"
    by (simp only: handle_success [OF h d] proj_append tail append_Nil2)
  have c0: "rerr (rdr ?s0) = None" "buffered (rdr ?s0) = []" "cin ?s0 = cin s"
    by (simp_all add: NewReader_def)
  have B: "buffered (rdr s1) @ stream_bytes (cin s2) = extra"
    if a: "clean_stream (cin s)" "stream_bytes (cin s) = 0 # n # ct @ extra" "length ct = unat n"
  proof -
    have "clean_stream (cin ?s0)" "buffered (rdr ?s0) @ stream_bytes (cin ?s0) = 0 # n # ct @ extra"
      using a c0 by simp_all
    from handshake_binary_frame [OF this(1) c0(1) this(2) a(3), of E] obtain b' c' where
      e: "buffered b' @ stream_bytes c' = extra" and
      hh: "handshake E ?s0 =
             (case Decrypt E (cfgSecret E) ct of
                Inl err \<Rightarrow> (Inl err, snd (conn_Write E codeBadAddr (?s0\<lparr>rdr := b', cin := c'\<rparr>)))
              | Inr addr \<Rightarrow> (Inr addr, ?s0\<lparr>rdr := b', cin := c'\<rparr>))"
      by blast
    from hh h have "s1 = ?s0\<lparr>rdr := b', cin := c'\<rparr>"
      by (cases "Decrypt E (cfgSecret E) ct") simp_all
    then have "rdr s1 = b'" "cin s1 = c'" by simp_all
    with e c2 show ?thesis by simp
  qed
  have T: "buffered (rdr s1) @ stream_bytes (cin s2) = extra"
    if a: "clean_stream (cin s)" "stream_bytes (cin s) = line @ 10 # extra"
      "10 \<notin> set line" "0 \<notin> set line" "length line < defaultBufSize"
  proof -
    have "clean_stream (cin ?s0)" "buffered (rdr ?s0) @ stream_bytes (cin ?s0) = line @ 10 # extra"
      using a c0 by simp_all
    from handshake_text_frame [OF this(1) c0(1) this(2) a(3,4,5), of E] obtain b' c' where
      e: "buffered b' @ stream_bytes c' = extra" and
      hh: "handshake E ?s0 =
             (case DecryptBase64 E (cfgSecret E) (line @ [10]) of
                Inl err \<Rightarrow> (Inl err, snd (conn_Write E codeBadAddr (?s0\<lparr>rdr := b', cin := c'\<rparr>)))
              | Inr addr \<Rightarrow> (Inr addr, ?s0\<lparr>rdr := b', cin := c'\<rparr>))"
      by blast
    from hh h have "s1 = ?s0\<lparr>rdr := b', cin := c'\<rparr>"
      by (cases "DecryptBase64 E (cfgSecret E) (line @ [10])") simp_all
    then have "rdr s1 = b'" "cin s1 = c'" by simp_all
    with e c2 show ?thesis by simp
  qed
  from hb b ab t1 r make_addrBuf_short(2) [OF len] B T show ?thesis by simp
qed


text \<open>
  A binary frame followed by two pipelined bytes in the same segment, and a text line
  split over three segments with pipelined bytes in the last two.
\<close>

theorem backend_preamble_witness:
  "fst (handshake sample_env (start [([0, 2, 9, 9, 5, 6], None)])) = Inr [65, 66]
   \<and> fst (dial sample_env [65, 66]
          (snd (handshake sample_env (start [([0, 2, 9, 9, 5, 6], None)]))))
       = Returns (Some (Agent 0), None)
   \<and> length (RemoteAddr sample_env) \<le> 254
   \<and> clean_stream (cin (start [([0, 2, 9, 9, 5, 6], None)]))
   \<and> stream_bytes (cin (start [([0, 2, 9, 9, 5, 6], None)])) = 0 # 2 # [9, 9] @ [5, 6]
   \<and> length [9 :: byte, 9] = unat (2 :: byte)
   \<and> backend_received (trace (handle sample_env None (start [([0, 2, 9, 9, 5, 6], None)])))
       = [3, 49, 50, 51, 5, 6]
   \<and> buffered (rdr (snd (handshake sample_env (start [([0, 2, 9, 9, 5, 6], None)])))) = [5, 6]
   \<and> fst (handshake sample_env (start [([67, 81], None), ([107, 61, 10, 5], None), ([6], None)]))
       = Inr [65, 66]
   \<and> fst (dial sample_env [65, 66]
          (snd (handshake sample_env
                 (start [([67, 81], None), ([107, 61, 10, 5], None), ([6], None)]))))
       = Returns (Some (Agent 0), None)
   \<and> clean_stream (cin (start [([67, 81], None), ([107, 61, 10, 5], None), ([6], None)]))
   \<and> stream_bytes (cin (start [([67, 81], None), ([107, 61, 10, 5], None), ([6], None)]))
       = [67, 81, 107, 61] @ 10 # [5, 6]
   \<and> 10 \<notin> set [67 :: byte, 81, 107, 61] \<and> 0 \<notin> set [67 :: byte, 81, 107, 61]
   \<and> length [67 :: byte, 81, 107, 61] < defaultBufSize
   \<and> backend_received (trace (handle sample_env None
          (start [([67, 81], None), ([107, 61, 10, 5], None), ([6], None)])))
       = [3, 49, 50, 51, 5]
   \<and> stream_bytes (cin (snd (dial sample_env [65, 66] (snd (handshake sample_env
          (start [([67, 81], None), ([107, 61, 10, 5], None), ([6], None)])))))) = [6]"
proof -
  let ?E = sample_env
  let ?b = "start [([0, 2, 9, 9, 5, 6], None)]"
  let ?t = "start [([67, 81], None), ([107, 61, 10, 5], None), ([6], None)]"
  have e: "s\<lparr>rdr := NewReader, pool := snd (pool_Get None (pool s))\<rparr> = s"
    if "s = start c" for s c
    using that by (simp add: start_def pool_Get_def)
  have hb: "fst (handshake ?E ?b) = Inr [65, 66]"
    and db: "fst (dial ?E [65, 66] (snd (handshake ?E ?b))) = Returns (Some (Agent 0), None)"
    and ht: "fst (handshake ?E ?t) = Inr [65, 66]"
    and dt: "fst (dial ?E [65, 66] (snd (handshake ?E ?t))) = Returns (Some (Agent 0), None)"
    by code_simp+
  have len: "length (RemoteAddr ?E) \<le> 254" by (simp add: sample_env_def)
  have cb: "clean_stream (cin ?b)" "stream_bytes (cin ?b) = 0 # 2 # [9, 9] @ [5, 6]"
    "length [9 :: byte, 9] = unat (2 :: byte)"
    and ct: "clean_stream (cin ?t)" "stream_bytes (cin ?t) = [67, 81, 107, 61] @ 10 # [5, 6]"
    "10 \<notin> set [67 :: byte, 81, 107, 61]" "0 \<notin> set [67 :: byte, 81, 107, 61]"
    "length [67 :: byte, 81, 107, 61] < defaultBufSize"
    by (simp_all add: start_def clean_stream_def stream_bytes_def defaultBufSize_def)
  have vb: "buffered (rdr (snd (handshake ?E ?b))) = [5, 6]"
    and vt: "buffered (rdr (snd (handshake ?E ?t))) = [5]"
    and v0: "backend_received (trace ?b) = []" "backend_received (trace ?t) = []"
      "(word_of_nat (length (RemoteAddr ?E)) :: byte) # RemoteAddr ?E = [3, 49, 50, 51]"
    by code_simp+
  have "handshake ?E (?b\<lparr>rdr := NewReader, pool := snd (pool_Get None (pool ?b))\<rparr>)
          = (Inr [65, 66], snd (handshake ?E ?b))"
    using hb by (simp only: e [OF refl] prod_eq_iff fst_conv snd_conv simp_thms)
  moreover have "dial ?E [65, 66] (snd (handshake ?E ?b))
          = (Returns (Some (Agent 0), None), snd (dial ?E [65, 66] (snd (handshake ?E ?b))))"
    using db by (simp only: prod_eq_iff fst_conv snd_conv simp_thms)
  ultimately have rb: "backend_received (trace (handle ?E None ?b)) = [3, 49, 50, 51, 5, 6]"
    using backend_preamble [where E = ?E and s = ?b and pick = None and addr = "[65, 66]"
        and a = "Agent 0", OF _ _ len] v0 vb
    by simp
  have h2: "handshake ?E (?t\<lparr>rdr := NewReader, pool := snd (pool_Get None (pool ?t))\<rparr>)
          = (Inr [65, 66], snd (handshake ?E ?t))"
    using ht by (simp only: e [OF refl] prod_eq_iff fst_conv snd_conv simp_thms)
  have d2: "dial ?E [65, 66] (snd (handshake ?E ?t))
          = (Returns (Some (Agent 0), None), snd (dial ?E [65, 66] (snd (handshake ?E ?t))))"
    using dt by (simp only: prod_eq_iff fst_conv snd_conv simp_thms)
  note T = backend_preamble [where line = "[67, 81, 107, 61]" and extra = "[5, 6]", OF h2 d2 len]
  from T v0 vt have rt: "backend_received (trace (handle ?E None ?t)) = [3, 49, 50, 51, 5]"
    by simp
  from T ct have "buffered (rdr (snd (handshake ?E ?t))) @
      stream_bytes (cin (snd (dial ?E [65, 66] (snd (handshake ?E ?t))))) = [5, 6]"
    by blast
  with vt have st: "stream_bytes (cin (snd (dial ?E [65, 66] (snd (handshake ?E ?t))))) = [6]"
    by simp
  from hb db len cb rb vb ht dt ct rt st show ?thesis by (simp only: simp_thms)
qed

section \<open>The two framings of one ciphertext\<close>

lemma unat_byte_of_nat: "n < 256 \<Longrightarrow> unat (word_of_nat n :: byte) = n"
  using unat_of_nat [where 'a = 8, of n] by simp

lemma b64char_range: "43 \<le> unat (b64char v)"
proof -
  consider "v < 26" | "26 \<le> v" "v < 52" | "52 \<le> v" "v < 62" | "v = 62" | "62 < v"
    by linarith
  then show ?thesis
  proof cases
    case 1
    then have "65 + v < 256" by simp
    from unat_byte_of_nat [OF this] 1 show ?thesis by (simp add: b64char_def)
  next
    case 2
    then have "97 + (v - 26) < 256" by simp
    from unat_byte_of_nat [OF this] 2 show ?thesis by (simp add: b64char_def)
  next
    case 3
    then have "48 + (v - 52) < 256" by simp
    from unat_byte_of_nat [OF this] 3 show ?thesis by (simp add: b64char_def)
  next
    case 4
    then show ?thesis by (simp add: b64char_def)
  next
    case 5
    then show ?thesis by (simp add: b64char_def)
  qed
qed

lemma b64char_not_delim: "b64char v \<noteq> 0" "b64char v \<noteq> 10"
  using b64char_range [of v] by auto

lemma base64_encode_bytes: "x \<in> set (base64_encode ct) \<Longrightarrow> x \<noteq> 0 \<and> x \<noteq> 10"
  by (induction ct rule: base64_encode.induct) (auto simp: b64char_not_delim)

lemma base64_encode_length: "length (base64_encode ct) = 4 * ((length ct + 2) div 3)"
proof (induction ct rule: base64_encode.induct)
  case (4 a b c rest)
  have "(length (a # b # c # rest) + 2) div 3 = (length rest + 2) div 3 + 1"
    by simp
  with 4 show ?case by simp
qed simp_all


text \<open>
  C6. Let the cipher decrypt a base64 line as it decrypts the decoded bytes, the line of
  a Text frame being decoded to the ciphertext it encodes. Then a Binary frame carrying a
  ciphertext (of at most 255 bytes, what one length byte can announce) and a Text frame
  carrying the base64 encoding of the same ciphertext and a newline give the same result
  of the handshake, the one of the raw decryption: the same address when the ciphertext
  decrypts, and the same error otherwise. This holds in whatever pieces the frames arrive
  and whatever follows them.
\<close>

theorem codec_equivalence:
  assumes cipher: "\<forall>line. DecryptBase64 E (cfgSecret E) line
                            = Decrypt E (cfgSecret E) (base64_decode line)"
    and dec: "base64_decode (base64_encode ct @ [10]) = ct"
    and len: "length ct \<le> 255"
    and binary_frame: "clean_stream (cin s)" "rerr (rdr s) = None"
      "buffered (rdr s) @ stream_bytes (cin s) = 0 # word_of_nat (length ct) # ct @ extra"
    and text_frame: "clean_stream (cin s')" "rerr (rdr s') = None"
      "buffered (rdr s') @ stream_bytes (cin s') = base64_encode ct @ 10 # extra'"
  shows "fst (handshake E s) = Decrypt E (cfgSecret E) ct
       \<and> fst (handshake E s') = Decrypt E (cfgSecret E) ct"
proof -
  from len have "length ct < 256" by simp
  from unat_byte_of_nat [OF this]
  have n: "length ct = unat (word_of_nat (length ct) :: byte)" by simp
  from handshake_binary_frame [OF binary_frame n, of E]
  have b: "fst (handshake E s) = Decrypt E (cfgSecret E) ct"
    by (cases "Decrypt E (cfgSecret E) ct") auto
  let ?line = "base64_encode ct"
  have l: "10 \<notin> set ?line" "0 \<notin> set ?line"
    using base64_encode_bytes [of _ ct] by blast+
  have "length ?line \<le> 4 * ((255 + 2) div 3)"
    unfolding base64_encode_length using len by (intro mult_le_mono2 div_le_mono) simp
  then have "length ?line < defaultBufSize" by (simp add: defaultBufSize_def)
  from handshake_text_frame [OF text_frame l this, of E]
  have "fst (handshake E s') = DecryptBase64 E (cfgSecret E) (?line @ [10])"
    by (cases "DecryptBase64 E (cfgSecret E) (?line @ [10])") auto
  with cipher dec have "fst (handshake E s') = Decrypt E (cfgSecret E) ct" by simp
  with b show ?thesis by simp
qed

text \<open>
  The ciphertext \<^verbatim>\<open>09 09\<close> of the sample environment, as a binary frame and as the line
  \<^verbatim>\<open>CQk=\<close>, each split over two segments and followed by one more byte.
\<close>

theorem codec_equivalence_witness:
  "(\<forall>line. DecryptBase64 sample_env (cfgSecret sample_env) line
            = Decrypt sample_env (cfgSecret sample_env)
                (if line = [67, 81, 107, 61, 10] then [9, 9] else []))
   \<and> base64_encode [9, 9] @ [10] = [67, 81, 107, 61, 10]
   \<and> length [9 :: byte, 9] \<le> 255
   \<and> clean_stream (cin (start [([0, 2, 9], None), ([9, 5], None)]))
   \<and> stream_bytes (cin (start [([0, 2, 9], None), ([9, 5], None)]))
       = 0 # word_of_nat (length [9 :: byte, 9]) # [9, 9] @ [5]
   \<and> clean_stream (cin (start [([67, 81, 107], None), ([61, 10, 5], None)]))
   \<and> stream_bytes (cin (start [([67, 81, 107], None), ([61, 10, 5], None)]))
       = base64_encode [9, 9] @ 10 # [5]
   \<and> Decrypt sample_env (cfgSecret sample_env) [9, 9] = Inr [65, 66]
   \<and> fst (handshake sample_env (start [([0, 2, 9], None), ([9, 5], None)])) = Inr [65, 66]
   \<and> fst (handshake sample_env (start [([67, 81, 107], None), ([61, 10, 5], None)]))
       = Inr [65, 66]"
proof -
  let ?E = sample_env
  let ?d = "\<lambda>line :: byte list. if line = [67, 81, 107, 61, 10] then [9, 9 :: byte] else []"
  let ?b = "start [([0, 2, 9], None), ([9, 5], None)]"
  let ?t = "start [([67, 81, 107], None), ([61, 10, 5], None)]"
  have c: "\<forall>line. DecryptBase64 ?E (cfgSecret ?E) line = Decrypt ?E (cfgSecret ?E) (?d line)"
    by (simp add: sample_env_def)
  have e: "base64_encode [9, 9] @ [10] = [67, 81, 107, 61, 10]" by code_simp
  then have d: "?d (base64_encode [9, 9] @ [10]) = [9, 9]" by simp
  have len: "length [9 :: byte, 9] \<le> 255" by simp
  have sb: "clean_stream (cin ?b)" "rerr (rdr ?b) = None"
    "buffered (rdr ?b) @ stream_bytes (cin ?b)
       = 0 # word_of_nat (length [9 :: byte, 9]) # [9, 9] @ [5]"
    by code_simp+
  have st: "clean_stream (cin ?t)" "rerr (rdr ?t) = None"
    "buffered (rdr ?t) @ stream_bytes (cin ?t) = base64_encode [9, 9] @ 10 # [5]"
    by code_simp+
  have x: "stream_bytes (cin ?b) = 0 # word_of_nat (length [9 :: byte, 9]) # [9, 9] @ [5]"
    "stream_bytes (cin ?t) = base64_encode [9, 9] @ 10 # [5]"
    "Decrypt ?E (cfgSecret ?E) [9, 9] = Inr [65, 66]"
    by code_simp+
  from codec_equivalence [of ?E ?d "[9, 9]" ?b "[5]" ?t "[5]", OF c d len sb st] x(3)
  have "fst (handshake ?E ?b) = Inr [65, 66]" "fst (handshake ?E ?t) = Inr [65, 66]"
    by simp_all
  with c e len sb(1) st(1) x show ?thesis by (simp only: simp_thms)
qed

end
